theory Spec2Isabelle
  imports Complex_Main "HOL-Library.AList" "HOL-Library.Sublist"
begin

section \<open>Strings\<close>

text \<open>
  A JavaScript string is modelled as a \<^typ>\<open>string\<close>: a list of code units below 256
  (the Latin-1 range), so one \<^typ>\<open>char\<close> is one UTF-16 code unit and one code point.
  The helpers below are the built-in string operations the exporter uses, restricted to
  that range.
\<close>

text \<open>The class \<open>\s\<close> of a regular expression, also the set \<open>trim()\<close> strips:
  TAB, LF, VT, FF, CR, SPACE and NBSP are its members below 256.\<close>

definition js_isspace :: "char \<Rightarrow> bool" where
  "js_isspace c \<longleftrightarrow> c \<in> {CHR 0x09, CHR 0x0A, CHR 0x0B, CHR 0x0C, CHR 0x0D, CHR 0x20, CHR 0xA0}"

definition trimStart :: "string \<Rightarrow> string" where
  "trimStart s = dropWhile js_isspace s"

definition trimEnd :: "string \<Rightarrow> string" where
  "trimEnd s = rev (dropWhile js_isspace (rev s))"

definition trim :: "string \<Rightarrow> string" where
  "trim s = trimEnd (trimStart s)"

text \<open>\<open>s.replace(/[C]+/g, r)\<close>: every maximal run of characters of the class \<open>P\<close> becomes
  the single character \<open>r\<close>. The flag says whether the previous character was in the run.\<close>

fun replace_runs :: "(char \<Rightarrow> bool) \<Rightarrow> char \<Rightarrow> bool \<Rightarrow> string \<Rightarrow> string" where
  "replace_runs P r inRun [] = []"
| "replace_runs P r inRun (c # cs) =
     (if P c then (if inRun then replace_runs P r True cs else r # replace_runs P r True cs)
      else c # replace_runs P r False cs)"

text \<open>\<open>xs.join(sep)\<close>.\<close>

fun join :: "string \<Rightarrow> string list \<Rightarrow> string" where
  "join sep [] = []"
| "join sep [x] = x"
| "join sep (x # y # ys) = x @ sep @ join sep (y # ys)"

text \<open>\<open>String(n)\<close> for a non-negative integer: its decimal digits.\<close>

definition digit_char :: "nat \<Rightarrow> char" where
  "digit_char d = ''0123456789'' ! (d mod 10)"

function string_of_nat :: "nat \<Rightarrow> string" where
  "string_of_nat n =
     (if n < 10 then [digit_char n]
      else string_of_nat (n div 10) @ [digit_char (n mod 10)])"
  by pat_completeness auto
termination
  by (relation "measure id") auto

declare string_of_nat.simps [simp del]

text \<open>\<open>toLowerCase()\<close> on code units below 256: A-Z and the accented capitals
  0xC0-0xDE (without the multiplication sign 0xD7) move up by 32, all else stays.\<close>

definition upper_chars :: string where
  "upper_chars = ''ABCDEFGHIJKLMNOPQRSTUVWXYZ'' @
     [CHR 0xC0, CHR 0xC1, CHR 0xC2, CHR 0xC3, CHR 0xC4, CHR 0xC5, CHR 0xC6, CHR 0xC7,
      CHR 0xC8, CHR 0xC9, CHR 0xCA, CHR 0xCB, CHR 0xCC, CHR 0xCD, CHR 0xCE, CHR 0xCF,
      CHR 0xD0, CHR 0xD1, CHR 0xD2, CHR 0xD3, CHR 0xD4, CHR 0xD5, CHR 0xD6,
      CHR 0xD8, CHR 0xD9, CHR 0xDA, CHR 0xDB, CHR 0xDC, CHR 0xDD, CHR 0xDE]"

definition lower_chars :: string where
  "lower_chars = ''abcdefghijklmnopqrstuvwxyz'' @
     [CHR 0xE0, CHR 0xE1, CHR 0xE2, CHR 0xE3, CHR 0xE4, CHR 0xE5, CHR 0xE6, CHR 0xE7,
      CHR 0xE8, CHR 0xE9, CHR 0xEA, CHR 0xEB, CHR 0xEC, CHR 0xED, CHR 0xEE, CHR 0xEF,
      CHR 0xF0, CHR 0xF1, CHR 0xF2, CHR 0xF3, CHR 0xF4, CHR 0xF5, CHR 0xF6,
      CHR 0xF8, CHR 0xF9, CHR 0xFA, CHR 0xFB, CHR 0xFC, CHR 0xFD, CHR 0xFE]"

definition toLowerCase_char :: "char \<Rightarrow> char" where
  "toLowerCase_char c =
     (case map_of (zip upper_chars lower_chars) c of Some d \<Rightarrow> d | None \<Rightarrow> c)"

definition toLowerCase :: "string \<Rightarrow> string" where
  "toLowerCase s = map toLowerCase_char s"

definition startsWith :: "string \<Rightarrow> string \<Rightarrow> bool" where
  "startsWith s p \<longleftrightarrow> take (length p) s = p"

section \<open>Footnote tokens and segments\<close>

text \<open>The character class \<open>[a-z0-9_-]\<close>.\<close>

definition safe_char :: "char \<Rightarrow> bool" where
  "safe_char c \<longleftrightarrow> c \<in> set ''abcdefghijklmnopqrstuvwxyz0123456789_-''"

text \<open>
  \<^verbatim>\<open>
  function sanitizeFootnoteToken(value, fallback = 'footnote') {
      const source = String(value || '').trim().toLowerCase();
      const safe = source
          .replace(/[^a-z0-9_-]+/g, '-')
          .replace(/^-+|-+$/g, '')
          .slice(0, 48);
      return safe || fallback;
  }
  \<close>
\<close>

definition strip_dashes :: "string \<Rightarrow> string" where
  "strip_dashes s =
     rev (dropWhile (\<lambda>c. c = CHR ''-'') (rev (dropWhile (\<lambda>c. c = CHR ''-'') s)))"

definition sanitizeFootnoteToken :: "string \<Rightarrow> string \<Rightarrow> string" where
  "sanitizeFootnoteToken v fallback =
     (let source = toLowerCase (trim v);
          safe = take 48 (strip_dashes (replace_runs (\<lambda>c. \<not> safe_char c) (CHR ''-'') False source))
      in if safe = [] then fallback else safe)"

text \<open>A rich-text segment \<open>{ text, href }\<close>; \<open>href\<close> is a string or null.\<close>

datatype segment = Segment (seg_text: string) (seg_href: "string option")

text \<open>
  \<open>cloneFootnoteSegments\<close>: drop the segments with empty text, strip the leading
  white space of the first and the trailing white space of the last one that is left,
  then merge neighbours with the same \<open>href\<close>, skipping the segments the stripping
  emptied.
\<close>

definition normalize_push :: "segment list \<Rightarrow> segment \<Rightarrow> segment list" where
  "normalize_push normalized seg =
     (if seg_text seg = [] then normalized
      else if normalized \<noteq> [] \<and> seg_href (last normalized) = seg_href seg
      then butlast normalized @
             [Segment (seg_text (last normalized) @ seg_text seg) (seg_href (last normalized))]
      else normalized @ [Segment (seg_text seg) (seg_href seg)])"

definition map_text :: "(string \<Rightarrow> string) \<Rightarrow> segment \<Rightarrow> segment" where
  "map_text f seg = Segment (f (seg_text seg)) (seg_href seg)"

definition cloneFootnoteSegments :: "segment list \<Rightarrow> segment list" where
  "cloneFootnoteSegments segs =
     (let prepared = filter (\<lambda>s. seg_text s \<noteq> []) segs
      in if prepared = [] then []
         else let p1 = prepared[0 := map_text trimStart (prepared ! 0)];
                  lastIndex = length p1 - 1;
                  p2 = p1[lastIndex := map_text trimEnd (p1 ! lastIndex)]
              in foldl normalize_push [] p2)"

text \<open>
  \<open>buildFootnoteSegmentsKey\<close>: the key under which definitions with the same content
  meet: per segment the trimmed \<open>href\<close>, \<open>::\<close>, and the text with white space collapsed
  and trimmed, joined by \<open>|\<close>.
\<close>

definition segment_key :: "segment \<Rightarrow> string" where
  "segment_key seg =
     (case seg_href seg of Some h \<Rightarrow> trim h | None \<Rightarrow> []) @ ''::'' @
     trim (replace_runs js_isspace (CHR '' '') False (seg_text seg))"

definition buildFootnoteSegmentsKey :: "segment list \<Rightarrow> string" where
  "buildFootnoteSegmentsKey segs =
     (let normalized = cloneFootnoteSegments segs
      in if normalized = [] then ''__EMPTY__''
         else join ''|'' (map segment_key normalized))"

text \<open>\<open>formatFootnoteNumberLabel\<close>: the positive numbers, in decimal, joined by \<open>, \<close>.\<close>

definition formatFootnoteNumberLabel :: "nat list \<Rightarrow> string" where
  "formatFootnoteNumberLabel nums =
     join '', '' (map string_of_nat (filter (\<lambda>v. 0 < v) nums))"

section \<open>The footnote plan builder\<close>

text \<open>
  A reference \<open>{ refIndex, targetId }\<close>. The list \<open>footnoteRefs\<close> is a list of
  \<^typ>\<open>'a option\<close>: \<open>None\<close> is an entry that the guard
  \<^verbatim>\<open>if (!ref || !Number.isFinite(ref.refIndex)) return;\<close> skips.
\<close>

record footnote_ref =
  refIndex :: nat
  ref_targetId :: string

text \<open>
  The item object of the source. \<open>lastAssignedNumber\<close> is \<open>null\<close> (\<open>None\<close>) between
  the creation of the item and the first number it gets; the object literal of the
  returned plan has no such field, which is \<open>None\<close> as well.
\<close>

record footnote_item =
  targetId :: string
  targetIds :: "string list"
  number :: nat
  numberLabel :: string
  numbers :: "nat list"
  lastAssignedNumber :: "nat option"
  destName :: string
  segments :: "segment list"

text \<open>
  The running state of one page. The source keeps the item objects in \<open>items\<close> and
  the same objects, by reference, in the two lookup maps; items are only ever appended, so a
  reference to an item is its index in \<open>items\<close>, and changing the item at that index is
  seen through both maps, as the mutation of the shared object is.
\<close>

record page_entry =
  page :: nat
  items :: "footnote_item list"
  byTargetId :: "string \<rightharpoonup> nat"
  byDefinitionKey :: "string \<rightharpoonup> nat"
  nextNumber :: nat

record ref_update =
  upd_refIndex :: nat
  newNumber :: nat
  newLabel :: string
  upd_destName :: string

text \<open>The local variables of \<open>buildFootnotePagePlan\<close>. \<open>pages\<close> is a JavaScript \<open>Map\<close>:
  an association list in insertion order, written with \<^const>\<open>AList.update\<close>.\<close>

record plan_state =
  pages :: "(nat \<times> page_entry) list"
  refUpdates :: "ref_update list"
  unresolvedRefs :: "nat list"
  destinationCounter :: nat

definition initial_state :: plan_state where
  "initial_state = \<lparr>pages = [], refUpdates = [], unresolvedRefs = [], destinationCounter = 0\<rparr>"

text \<open>\<open>markerPages.get(ref.refIndex)\<close> followed by \<open>if (!page)\<close>: a missing key and
  the page 0 are both unresolved.\<close>

definition resolvePage :: "(nat \<rightharpoonup> nat) \<Rightarrow> footnote_ref \<Rightarrow> nat option" where
  "resolvePage markerPages r =
     (case markerPages (refIndex r) of
        None \<Rightarrow> None
      | Some p \<Rightarrow> if p = 0 then None else Some p)"

definition new_entry :: "nat \<Rightarrow> page_entry" where
  "new_entry p = \<lparr>page = p, items = [], byTargetId = Map.empty,
                  byDefinitionKey = Map.empty, nextNumber = 1\<rparr>"

definition placeholder :: "segment list" where
  "placeholder = [Segment ''(footnote text unavailable)'' None]"

definition hasDefinition :: "(string \<rightharpoonup> segment list) \<Rightarrow> string \<Rightarrow> bool" where
  "hasDefinition definitionsById t =
     (case definitionsById t of None \<Rightarrow> False | Some segs \<Rightarrow> segs \<noteq> [])"

definition segments_for :: "(string \<rightharpoonup> segment list) \<Rightarrow> string \<Rightarrow> segment list" where
  "segments_for definitionsById t =
     (case definitionsById t of
        None \<Rightarrow> placeholder
      | Some segs \<Rightarrow> if segs \<noteq> [] then cloneFootnoteSegments segs else placeholder)"

definition definitionGroupKey :: "(string \<rightharpoonup> segment list) \<Rightarrow> string \<Rightarrow> string option" where
  "definitionGroupKey definitionsById t =
     (if hasDefinition definitionsById t
      then Some (''definition:'' @ buildFootnoteSegmentsKey (segments_for definitionsById t))
      else None)"

text \<open>The item a lookup map refers to (an index outside \<open>items\<close> is no item; the
  source never stores one).\<close>

definition item_at :: "page_entry \<Rightarrow> nat option \<Rightarrow> footnote_item option" where
  "item_at e ref =
     (case ref of None \<Rightarrow> None
      | Some i \<Rightarrow> if i < length (items e) then Some (items e ! i) else None)"

definition isContiguous :: "nat \<Rightarrow> footnote_item option \<Rightarrow> bool" where
  "isContiguous assignedNumber item =
     (case item of None \<Rightarrow> False
      | Some it \<Rightarrow> (case lastAssignedNumber it of None \<Rightarrow> False
                   | Some l \<Rightarrow> int l = int assignedNumber - 1))"

text \<open>The choice of the item to reuse: the one last used for this \<open>targetId\<close> if it is
  contiguous, else the one last used for this definition key if that is contiguous.\<close>

definition reusable_item :: "page_entry \<Rightarrow> string \<Rightarrow> string option \<Rightarrow> nat \<Rightarrow> nat option" where
  "reusable_item e t key assignedNumber =
     (let byTarget = byTargetId e t
      in if isContiguous assignedNumber (item_at e byTarget) then byTarget
         else case key of
                None \<Rightarrow> None
              | Some k \<Rightarrow> (let byDefinition = byDefinitionKey e k
                          in if isContiguous assignedNumber (item_at e byDefinition)
                             then byDefinition else None))"

definition make_destName :: "nat \<Rightarrow> string \<Rightarrow> nat \<Rightarrow> string" where
  "make_destName counter t assignedNumber =
     ''export-footnote-'' @ string_of_nat counter @ ''-'' @
     sanitizeFootnoteToken t (''fn-'' @ string_of_nat assignedNumber)"

definition new_item :: "string \<Rightarrow> string \<Rightarrow> segment list \<Rightarrow> footnote_item" where
  "new_item t dest segs =
     \<lparr>targetId = t, targetIds = [t], number = 0, numberLabel = [], numbers = [],
      lastAssignedNumber = None, destName = dest, segments = segs\<rparr>"

definition add_targetId :: "string \<Rightarrow> footnote_item \<Rightarrow> footnote_item" where
  "add_targetId t it =
     (if t \<in> set (targetIds it) then it else it\<lparr>targetIds := targetIds it @ [t]\<rparr>)"

text \<open>\<open>numbers.push(assignedNumber)\<close> and the three assignments after it.\<close>

definition record_number :: "nat \<Rightarrow> footnote_item \<Rightarrow> footnote_item" where
  "record_number assignedNumber it =
     (let nums = numbers it @ [assignedNumber]
      in it\<lparr>numbers := nums, number := hd nums,
            numberLabel := formatFootnoteNumberLabel nums,
            lastAssignedNumber := Some assignedNumber\<rparr>)"

text \<open>
  The body of the loop for a reference resolved to the page of \<open>e\<close>: the new page
  entry, the new value of \<open>destinationCounter\<close>, and the index of the item that got the
  number.
\<close>

definition place_ref ::
  "(string \<rightharpoonup> segment list) \<Rightarrow> nat \<Rightarrow> page_entry \<Rightarrow> string \<Rightarrow> page_entry \<times> nat \<times> nat" where
  "place_ref definitionsById counter e t =
     (let assignedNumber = nextNumber e;
          segs = segments_for definitionsById t;
          key = definitionGroupKey definitionsById t;
          (its, idx, counter') =
            (case reusable_item e t key assignedNumber of
               None \<Rightarrow>
                 (items e @ [new_item t (make_destName (counter + 1) t assignedNumber) segs],
                  length (items e), counter + 1)
             | Some i \<Rightarrow> ((items e)[i := add_targetId t (items e ! i)], i, counter));
          its' = its[idx := record_number assignedNumber (its ! idx)]
      in (e\<lparr>items := its',
            nextNumber := assignedNumber + 1,
            byTargetId := (byTargetId e)(t \<mapsto> idx),
            byDefinitionKey :=
              (case key of None \<Rightarrow> byDefinitionKey e
               | Some k \<Rightarrow> (byDefinitionKey e)(k \<mapsto> idx))\<rparr>,
          counter', idx))"

definition entry_of :: "plan_state \<Rightarrow> nat \<Rightarrow> page_entry" where
  "entry_of st p = (case map_of (pages st) p of Some e \<Rightarrow> e | None \<Rightarrow> new_entry p)"

definition processRef ::
  "(nat \<rightharpoonup> nat) \<Rightarrow> (string \<rightharpoonup> segment list) \<Rightarrow> plan_state \<Rightarrow> footnote_ref option \<Rightarrow> plan_state" where
  "processRef markerPages definitionsById st ref =
     (case ref of
        None \<Rightarrow> st
      | Some r \<Rightarrow>
          (case resolvePage markerPages r of
             None \<Rightarrow> st\<lparr>unresolvedRefs := unresolvedRefs st @ [refIndex r]\<rparr>
           | Some p \<Rightarrow>
               (let (e', counter', idx) =
                      place_ref definitionsById (destinationCounter st) (entry_of st p)
                        (ref_targetId r)
                in st\<lparr>pages := AList.update p e' (pages st),
                      destinationCounter := counter',
                      refUpdates := refUpdates st @
                        [\<lparr>upd_refIndex = refIndex r,
                          newNumber = nextNumber (entry_of st p),
                          newLabel = string_of_nat (nextNumber (entry_of st p)),
                          upd_destName = destName (items e' ! idx)\<rparr>]\<rparr>)))"

text \<open>The plan that is returned: the pages in ascending order, every item copied.\<close>

record page_plan =
  plan_page :: nat
  plan_items :: "footnote_item list"

record footnote_plan =
  out_pages :: "page_plan list"
  out_refUpdates :: "ref_update list"
  out_unresolvedRefs :: "nat list"

definition copy_item :: "footnote_item \<Rightarrow> footnote_item" where
  "copy_item it =
     \<lparr>targetId = targetId it, targetIds = targetIds it, number = number it,
      numberLabel = (if numberLabel it \<noteq> [] then numberLabel it
                     else formatFootnoteNumberLabel (numbers it)),
      numbers = numbers it, lastAssignedNumber = None, destName = destName it,
      segments = cloneFootnoteSegments (segments it)\<rparr>"

definition orderedPages :: "(nat \<times> page_entry) list \<Rightarrow> page_plan list" where
  "orderedPages ps =
     map (\<lambda>p. \<lparr>plan_page = p,
               plan_items = map copy_item (items (the (map_of ps p)))\<rparr>)
       (sort (map fst ps))"

definition run_refs ::
  "(nat \<rightharpoonup> nat) \<Rightarrow> (string \<rightharpoonup> segment list) \<Rightarrow> footnote_ref option list \<Rightarrow> plan_state" where
  "run_refs markerPages definitionsById footnoteRefs =
     foldl (processRef markerPages definitionsById) initial_state footnoteRefs"

definition buildFootnotePagePlan ::
  "footnote_ref option list \<Rightarrow> (nat \<rightharpoonup> nat) \<Rightarrow> (string \<rightharpoonup> segment list) \<Rightarrow> footnote_plan" where
  "buildFootnotePagePlan footnoteRefs markerPages definitionsById =
     (let st = run_refs markerPages definitionsById footnoteRefs
      in \<lparr>out_pages = orderedPages (pages st),
          out_refUpdates = refUpdates st,
          out_unresolvedRefs = unresolvedRefs st\<rparr>)"

section \<open>Invariants of the plan builder\<close>

text \<open>The entries of \<open>footnoteRefs\<close> that pass the guard, and those of them that the
  marker map resolves to the page \<open>p\<close>.\<close>

fun valid_refs :: "footnote_ref option list \<Rightarrow> footnote_ref list" where
  "valid_refs [] = []"
| "valid_refs (None # rs) = valid_refs rs"
| "valid_refs (Some r # rs) = r # valid_refs rs"

definition refs_on_page :: "(nat \<rightharpoonup> nat) \<Rightarrow> nat \<Rightarrow> footnote_ref option list \<Rightarrow> footnote_ref list" where
  "refs_on_page markerPages p rs = [r \<leftarrow> valid_refs rs. resolvePage markerPages r = Some p]"

text \<open>
  The numbering of one page entry: the numbers of the items, read item after item, are
  \<open>1, ..., nextNumber - 1\<close>, and the only item whose last number is \<open>nextNumber - 1\<close>
  is the last item.
\<close>

definition numbering_inv :: "page_entry \<Rightarrow> bool" where
  "numbering_inv e \<longleftrightarrow>
     1 \<le> nextNumber e \<and>
     concat (map numbers (items e)) = [1..<nextNumber e] \<and>
     (\<forall>i<length (items e). \<exists>l. lastAssignedNumber (items e ! i) = Some l \<and>
         Suc l \<le> nextNumber e \<and> (Suc l = nextNumber e \<longrightarrow> Suc i = length (items e)))"

text \<open>
  The group of a \<open>targetId\<close>: its definition key if it has a definition, else the
  \<open>targetId\<close> itself. Two references can share an item only within one group.
\<close>

definition grp :: "(string \<rightharpoonup> segment list) \<Rightarrow> string \<Rightarrow> string + string" where
  "grp definitionsById t =
     (case definitionGroupKey definitionsById t of Some k \<Rightarrow> Inl k | None \<Rightarrow> Inr t)"

text \<open>The lookup maps of a page entry refer to items of the entry, each to an item of
  the group of its key.\<close>

definition lookup_inv :: "(string \<rightharpoonup> segment list) \<Rightarrow> page_entry \<Rightarrow> bool" where
  "lookup_inv definitionsById e \<longleftrightarrow>
     (\<forall>t i. byTargetId e t = Some i \<longrightarrow>
        i < length (items e) \<and>
        grp definitionsById (targetId (items e ! i)) = grp definitionsById t) \<and>
     (\<forall>k i. byDefinitionKey e k = Some i \<longrightarrow>
        i < length (items e) \<and> grp definitionsById (targetId (items e ! i)) = Inl k)"

text \<open>
  The shape of a destination name: \<open>export-footnote-\<close>, a counter, \<open>-\<close> and a token
  that is not empty and is at most 48 characters long, unless it is the fallback
  \<open>fn-N\<close>; all of it within \<open>[a-z0-9_-]\<close>.
\<close>

definition dest_ok :: "string \<Rightarrow> bool" where
  "dest_ok d \<longleftrightarrow>
     d \<noteq> [] \<and> (\<forall>c \<in> set d. safe_char c) \<and>
     (\<exists>k tok. d = ''export-footnote-'' @ string_of_nat k @ ''-'' @ tok \<and> tok \<noteq> [] \<and>
        (length tok \<le> 48 \<or> (\<exists>n. tok = ''fn-'' @ string_of_nat n)))"

definition items_inv :: "(string \<rightharpoonup> segment list) \<Rightarrow> page_entry \<Rightarrow> bool" where
  "items_inv definitionsById e \<longleftrightarrow>
     (\<forall>it \<in> set (items e).
        segments it = segments_for definitionsById (targetId it) \<and> dest_ok (destName it))"

definition entry_inv :: "(string \<rightharpoonup> segment list) \<Rightarrow> page_entry \<Rightarrow> bool" where
  "entry_inv definitionsById e \<longleftrightarrow>
     numbering_inv e \<and> lookup_inv definitionsById e \<and> items_inv definitionsById e"

text \<open>What a later step may change of an item: it may add numbers and \<open>targetIds\<close>.\<close>

definition item_ext :: "footnote_item \<Rightarrow> footnote_item \<Rightarrow> bool" where
  "item_ext it it' \<longleftrightarrow>
     targetId it' = targetId it \<and> segments it' = segments it \<and> destName it' = destName it \<and>
     set (numbers it) \<subseteq> set (numbers it') \<and> set (targetIds it) \<subseteq> set (targetIds it')"

definition entry_ext :: "page_entry \<Rightarrow> page_entry \<Rightarrow> bool" where
  "entry_ext e e' \<longleftrightarrow>
     length (items e) \<le> length (items e') \<and>
     (\<forall>i<length (items e). item_ext (items e ! i) (items e' ! i))"

text \<open>The list of references without the unresolved ones.\<close>

definition without_unresolved ::
  "(nat \<rightharpoonup> nat) \<Rightarrow> footnote_ref option list \<Rightarrow> footnote_ref option list" where
  "without_unresolved markerPages rs =
     filter (\<lambda>x. case x of None \<Rightarrow> True | Some r \<Rightarrow> resolvePage markerPages r \<noteq> None) rs"

text \<open>The part of the state that the plan's pages and reference updates are made of.\<close>

definition core :: "plan_state \<Rightarrow> (nat \<times> page_entry) list \<times> ref_update list \<times> nat" where
  "core st = (pages st, refUpdates st, destinationCounter st)"




section \<open>The text flow layout\<close>

text \<open>
  \<open>tokenizeFootnoteText\<close>: line ends are normalised (\<open>\r\n\<close> and \<open>\r\<close> become \<open>\n\<close>, a
  no-break space becomes a space), then the text is cut into words, single spaces (a run of
  white space is one space token) and line breaks.
\<close>

datatype token = TextToken string | NewlineToken | SpaceToken

fun replace_crlf :: "string \<Rightarrow> string" where
  "replace_crlf [] = []"
| "replace_crlf [c] = [c]"
| "replace_crlf (c # d # cs) =
     (if c = CHR 0x0D \<and> d = CHR 0x0A then CHR 0x0A # replace_crlf cs
      else c # replace_crlf (d # cs))"

definition normalize_text :: "string \<Rightarrow> string" where
  "normalize_text s =
     map (\<lambda>c. if c = CHR 0xA0 then CHR 0x20 else c)
       (map (\<lambda>c. if c = CHR 0x0D then CHR 0x0A else c) (replace_crlf s))"

definition flush :: "token list \<times> string \<Rightarrow> token list \<times> string" where
  "flush tb =
     (case tb of (tokens, buffer) \<Rightarrow>
        if buffer = [] then (tokens, []) else (tokens @ [TextToken buffer], []))"

definition token_step :: "token list \<times> string \<Rightarrow> char \<Rightarrow> token list \<times> string" where
  "token_step tb c =
     (if c = CHR 0x0A then (fst (flush tb) @ [NewlineToken], [])
      else if js_isspace c then
        (let tokens = fst (flush tb)
         in if tokens \<noteq> [] \<and> last tokens = SpaceToken then (tokens, [])
            else (tokens @ [SpaceToken], []))
      else (fst tb, snd tb @ [c]))"

definition tokenizeFootnoteText :: "string \<Rightarrow> token list" where
  "tokenizeFootnoteText s = fst (flush (foldl token_step ([], []) (normalize_text s)))"

text \<open>
  \<open>splitWordByWidth\<close>: the glyphs of a word are gathered into chunks; a chunk is closed
  when one more glyph would make it wider than \<open>maxWidthPt\<close>. The font's
  \<open>widthOfTextAtSize\<close> at the font size in use is the parameter \<open>widthOf\<close>.
\<close>

definition glyph_step ::
  "(string \<Rightarrow> real) \<Rightarrow> real \<Rightarrow> string list \<times> string \<Rightarrow> char \<Rightarrow> string list \<times> string" where
  "glyph_step widthOf maxWidthPt pc glyph =
     (case pc of (parts, chunk) \<Rightarrow>
        (let candidate = chunk @ [glyph]
         in if chunk \<noteq> [] \<and> widthOf candidate > maxWidthPt then (parts @ [chunk], [glyph])
            else (parts, candidate)))"

definition splitWordByWidth :: "(string \<Rightarrow> real) \<Rightarrow> string \<Rightarrow> real \<Rightarrow> string list" where
  "splitWordByWidth widthOf word maxWidthPt =
     (if word = [] then []
      else (case foldl (glyph_step widthOf maxWidthPt) ([], []) word of
              (parts, chunk) \<Rightarrow> if chunk \<noteq> [] then parts @ [chunk] else parts))"

text \<open>A fragment \<open>{ text, href, width, isSpace }\<close> and the state of \<open>layoutFootnoteSegments\<close>.\<close>

record fragment =
  frag_text :: string
  frag_href :: "string option"
  frag_width :: real
  isSpace :: bool

record layout_state =
  lines :: "fragment list list"
  currentLine :: "fragment list"
  currentWidth :: real

function trimTrailingSpaces :: "fragment list \<times> real \<Rightarrow> fragment list \<times> real" where
  "trimTrailingSpaces (line, w) =
     (if line \<noteq> [] \<and> isSpace (last line)
      then trimTrailingSpaces (butlast line, w - frag_width (last line))
      else (line, w))"
  by pat_completeness auto
termination
  by (relation "measure (\<lambda>(line, w). length line)") auto

declare trimTrailingSpaces.simps [simp del]

definition commitLine :: "bool \<Rightarrow> layout_state \<Rightarrow> layout_state" where
  "commitLine allowEmpty st =
     (let trimmed = fst (trimTrailingSpaces (currentLine st, currentWidth st))
      in \<lparr>lines = (if allowEmpty \<or> trimmed \<noteq> [] then lines st @ [trimmed] else lines st),
          currentLine = [], currentWidth = 0\<rparr>)"

text \<open>\<open>href || null\<close>: the empty string counts as no link.\<close>

definition href_or_null :: "string option \<Rightarrow> string option" where
  "href_or_null h = (case h of None \<Rightarrow> None | Some s \<Rightarrow> if s = [] then None else Some s)"

definition appendFragment ::
  "(string \<Rightarrow> real) \<Rightarrow> string \<Rightarrow> string option \<Rightarrow> bool \<Rightarrow> layout_state \<Rightarrow> layout_state" where
  "appendFragment widthOf txt href sp st =
     (if txt = [] then st
      else let w = widthOf txt
           in if w \<le> 0 then st
              else if currentLine st \<noteq> [] \<and>
                      frag_href (last (currentLine st)) = href_or_null href \<and>
                      isSpace (last (currentLine st)) = sp
              then st\<lparr>currentLine := butlast (currentLine st) @
                         [(last (currentLine st))
                            \<lparr>frag_text := frag_text (last (currentLine st)) @ txt,
                             frag_width := frag_width (last (currentLine st)) + w\<rparr>],
                       currentWidth := currentWidth st + w\<rparr>
              else st\<lparr>currentLine := currentLine st @
                         [\<lparr>frag_text = txt, frag_href = href_or_null href,
                           frag_width = w, isSpace = sp\<rparr>],
                       currentWidth := currentWidth st + w\<rparr>)"

text \<open>The loop over the chunks of a word that is wider than a line.\<close>

fun place_chunks ::
  "(string \<Rightarrow> real) \<Rightarrow> real \<Rightarrow> string option \<Rightarrow> layout_state \<Rightarrow> string list \<Rightarrow> layout_state" where
  "place_chunks widthOf maxWidthPt href st [] = st"
| "place_chunks widthOf maxWidthPt href st (chunk # rest) =
     (let st1 = (if currentWidth st > 0 \<and> currentWidth st + widthOf chunk > maxWidthPt
                 then commitLine False st else st);
          st2 = appendFragment widthOf chunk href False st1;
          st3 = (if rest \<noteq> [] then commitLine False st2 else st2)
      in place_chunks widthOf maxWidthPt href st3 rest)"

definition place_token ::
  "(string \<Rightarrow> real) \<Rightarrow> real \<Rightarrow> string option \<Rightarrow> layout_state \<Rightarrow> token \<Rightarrow> layout_state" where
  "place_token widthOf maxWidthPt href st tok =
     (case tok of
        NewlineToken \<Rightarrow> commitLine True st
      | _ \<Rightarrow>
          (let txt = (case tok of TextToken t \<Rightarrow> t | _ \<Rightarrow> '' '');
               sp = (tok = SpaceToken)
           in if txt = [] then st
              else if sp \<and> currentWidth st \<le> 0 then st
              else let w = widthOf txt
                   in if \<not> sp \<and> w > maxWidthPt
                      then place_chunks widthOf maxWidthPt href st
                             (splitWordByWidth widthOf txt maxWidthPt)
                      else if currentWidth st > 0 \<and> currentWidth st + w > maxWidthPt
                      then (if sp then commitLine False st
                            else appendFragment widthOf txt href sp (commitLine False st))
                      else appendFragment widthOf txt href sp st))"

definition place_segment ::
  "(string \<Rightarrow> real) \<Rightarrow> real \<Rightarrow> layout_state \<Rightarrow> segment \<Rightarrow> layout_state" where
  "place_segment widthOf maxWidthPt st seg =
     foldl (place_token widthOf maxWidthPt (seg_href seg)) st (tokenizeFootnoteText (seg_text seg))"

definition layoutFootnoteSegments ::
  "segment list \<Rightarrow> real \<Rightarrow> (string \<Rightarrow> real) \<Rightarrow> fragment list list" where
  "layoutFootnoteSegments segs maxWidthPt widthOf =
     (let st = foldl (place_segment widthOf maxWidthPt)
                 \<lparr>lines = [], currentLine = [], currentWidth = 0\<rparr> segs;
          trimmed = fst (trimTrailingSpaces (currentLine st, currentWidth st));
          ls = (if trimmed \<noteq> [] then lines st @ [trimmed] else lines st)
      in if ls = [] then [[]] else ls)"

text \<open>
  A line is within the budget, or it is one fragment that is one glyph wider than the
  budget.
\<close>

definition line_ok :: "(string \<Rightarrow> real) \<Rightarrow> real \<Rightarrow> fragment list \<Rightarrow> bool" where
  "line_ok widthOf maxWidthPt line \<longleftrightarrow>
     sum_list (map frag_width line) \<le> maxWidthPt \<or>
     (case line of
        [f] \<Rightarrow> \<not> isSpace f \<and> length (frag_text f) = 1 \<and>
               frag_width f = widthOf (frag_text f) \<and> maxWidthPt < widthOf (frag_text f)
      | _ \<Rightarrow> False)"

definition layout_inv :: "(string \<Rightarrow> real) \<Rightarrow> real \<Rightarrow> layout_state \<Rightarrow> bool" where
  "layout_inv widthOf maxWidthPt st \<longleftrightarrow>
     list_all (line_ok widthOf maxWidthPt) (lines st) \<and>
     line_ok widthOf maxWidthPt (currentLine st) \<and>
     currentWidth st = sum_list (map frag_width (currentLine st)) \<and>
     list_all (\<lambda>f. 0 < frag_width f) (currentLine st)"

definition chunk_ok :: "(string \<Rightarrow> real) \<Rightarrow> real \<Rightarrow> string \<Rightarrow> bool" where
  "chunk_ok widthOf maxWidthPt c \<longleftrightarrow> c \<noteq> [] \<and> (length c = 1 \<or> widthOf c \<le> maxWidthPt)"


definition strip_ws :: "string \<Rightarrow> string" where
  "strip_ws s = filter (\<lambda>c. \<not> js_isspace c) s"







section \<open>The page offset vote\<close>

text \<open>
  \<open>savePdf\<close> compares the page of each marker in the content render with its page in
  the probe render and counts the differences in a \<open>Map\<close>, here an association list in
  insertion order:
  \<^verbatim>\<open>
  const delta = probePage - contentPage;
  offsetCounts.set(delta, (offsetCounts.get(delta) || 0) + 1);
  \<close>
\<close>

definition bump :: "(int \<times> nat) list \<Rightarrow> int \<Rightarrow> (int \<times> nat) list" where
  "bump offsetCounts delta =
     AList.update delta ((case map_of offsetCounts delta of None \<Rightarrow> 0 | Some c \<Rightarrow> c) + 1)
       offsetCounts"

text \<open>\<open>if (!contentPage || !probePage) return;\<close>: a marker counts when both maps have a
  page for it that is not 0.\<close>

definition tally_step ::
  "(nat \<rightharpoonup> nat) \<Rightarrow> (nat \<rightharpoonup> nat) \<Rightarrow> (int \<times> nat) list \<Rightarrow> nat \<Rightarrow> (int \<times> nat) list" where
  "tally_step contentPages probePages offsetCounts idx =
     (case contentPages idx of
        None \<Rightarrow> offsetCounts
      | Some contentPage \<Rightarrow>
          (case probePages idx of
             None \<Rightarrow> offsetCounts
           | Some probePage \<Rightarrow>
               if contentPage = 0 \<or> probePage = 0 then offsetCounts
               else bump offsetCounts (int probePage - int contentPage)))"

definition tally ::
  "(nat \<rightharpoonup> nat) \<Rightarrow> (nat \<rightharpoonup> nat) \<Rightarrow> nat list \<Rightarrow> (int \<times> nat) list" where
  "tally contentPages probePages indices =
     foldl (tally_step contentPages probePages) [] indices"

text \<open>
  \<^verbatim>\<open>
  offsetCounts.forEach((count, delta) => {
      if (count > topCount) {
          topCount = count;
          computedOffset = delta;
      }
  });
  \<close>
  The state is \<open>(computedOffset, topCount)\<close>.
\<close>

definition vote_step :: "int \<times> nat \<Rightarrow> int \<times> nat \<Rightarrow> int \<times> nat" where
  "vote_step st entry = (if snd entry > snd st then (fst entry, snd entry) else st)"

definition select_offset :: "int \<Rightarrow> (int \<times> nat) list \<Rightarrow> int" where
  "select_offset initial offsetCounts = fst (foldl vote_step (initial, 0) offsetCounts)"

text \<open>The vote over the headings of the table of contents starts from \<open>tocPageCount\<close>;
  the vote over the footnote references starts from the result of the first vote.\<close>

definition computedOffset :: "nat \<Rightarrow> (nat \<rightharpoonup> nat) \<Rightarrow> (nat \<rightharpoonup> nat) \<Rightarrow> nat list \<Rightarrow> int" where
  "computedOffset tocPageCount markerPages probeMarkerPages tocIndices =
     select_offset (int tocPageCount) (tally markerPages probeMarkerPages tocIndices)"

definition computedFootnoteOffset ::
  "int \<Rightarrow> (nat \<rightharpoonup> nat) \<Rightarrow> (nat \<rightharpoonup> nat) \<Rightarrow> footnote_ref option list \<Rightarrow> int" where
  "computedFootnoteOffset tocOffset contentPages probePages footnoteRefs =
     select_offset tocOffset (tally contentPages probePages (map refIndex (valid_refs footnoteRefs)))"

text \<open>The differences of the markers that both renders resolve, in the order of the
  markers, and the distinct values of a list in the order of their first occurrence.\<close>

definition resolved_deltas :: "(nat \<rightharpoonup> nat) \<Rightarrow> (nat \<rightharpoonup> nat) \<Rightarrow> nat list \<Rightarrow> int list" where
  "resolved_deltas contentPages probePages indices =
     concat (map (\<lambda>idx.
        case contentPages idx of
          None \<Rightarrow> []
        | Some c \<Rightarrow> (case probePages idx of
                      None \<Rightarrow> []
                    | Some p \<Rightarrow> if c = 0 \<or> p = 0 then [] else [int p - int c])) indices)"

definition firsts :: "'a list \<Rightarrow> 'a list" where
  "firsts ds = rev (remdups (rev ds))"

text \<open>
  The choice among the differences: the initial value if there is none, else a value of
  the highest count such that every value seen before its first occurrence has a lower
  count.
\<close>

definition first_most_frequent :: "int list \<Rightarrow> int \<Rightarrow> int \<Rightarrow> bool" where
  "first_most_frequent ds initial r \<longleftrightarrow>
     (if ds = [] then r = initial
      else r \<in> set ds \<and>
           list_all (\<lambda>d. count_list ds d \<le> count_list ds r) ds \<and>
           list_all (\<lambda>d. count_list ds d < count_list ds r) (takeWhile (\<lambda>d. d \<noteq> r) ds))"

section \<open>The footer sizing step\<close>

text \<open>
  The part of \<open>savePdf\<close> that sizes the footer. The renderer is outside the program:
  \<open>renderPlan m p\<close> is the plan that \<open>computeFootnotePlan\<close> gets from the content
  rendered with the bottom margin \<open>m\<close> after the reference updates of the plan \<open>p\<close> were
  applied, and \<open>estimate\<close> is \<open>maxRequiredMm\<close> of \<open>estimateFootnoteAreaMmInBrowser\<close>.
  Millimetres are real numbers. \<open>cycles\<close> and \<open>expansions\<close> count the recompute cycles
  and the margin expansions; the source has no such variables.
\<close>

record 'p sizing_state =
  footnoteAreaMm :: real
  bottomMarginMm :: real
  activeFootnotePlan :: 'p
  estimated :: real
  cycles :: nat
  expansions :: nat

definition footnoteMinAreaMm :: real where
  "footnoteMinAreaMm = 25"

definition pageNumberBandMm :: real where
  "pageNumberBandMm = 6"

text \<open>The state before the sizing: \<open>footnoteAreaMm = footnoteMinAreaMm\<close> and
  \<open>bottomMarginMm = footnoteAreaMm + pageNumberBandMm\<close>.\<close>

definition initial_sizing :: "'p \<Rightarrow> 'p sizing_state" where
  "initial_sizing p =
     \<lparr>footnoteAreaMm = footnoteMinAreaMm,
      bottomMarginMm = footnoteMinAreaMm + pageNumberBandMm,
      activeFootnotePlan = p, estimated = 0, cycles = 0, expansions = 0\<rparr>"

text \<open>
  One recompute cycle:
  \<^verbatim>\<open>
  await renderContentPdfWithTableBreaks();
  activeFootnotePlan = await computeFootnotePlan();
  await applyFootnoteRefUpdates(activeFootnotePlan.refUpdates);
  \<close>
\<close>

definition recompute_cycle :: "(real \<Rightarrow> 'p \<Rightarrow> 'p) \<Rightarrow> 'p sizing_state \<Rightarrow> 'p sizing_state" where
  "recompute_cycle renderPlan s =
     s\<lparr>activeFootnotePlan := renderPlan (bottomMarginMm s) (activeFootnotePlan s),
       cycles := cycles s + 1\<rparr>"

definition three_cycles :: "(real \<Rightarrow> 'p \<Rightarrow> 'p) \<Rightarrow> 'p sizing_state \<Rightarrow> 'p sizing_state" where
  "three_cycles renderPlan s =
     recompute_cycle renderPlan (recompute_cycle renderPlan (recompute_cycle renderPlan s))"

text \<open>\<open>applyPdfMarginState\<close>, as far as the sizing goes.\<close>

definition applyPdfMarginState :: "'p sizing_state \<Rightarrow> 'p sizing_state" where
  "applyPdfMarginState s = s\<lparr>bottomMarginMm := footnoteAreaMm s + pageNumberBandMm\<rparr>"

text \<open>
  \<^verbatim>\<open>
  if (hasFootnotes) {
      ... three cycles ...
      let estimated = await estimateFootnoteAreaMmInBrowser(...);
      if (estimated.maxRequiredMm > footnoteAreaMm + 0.25) {
          footnoteAreaMm = Math.ceil(estimated.maxRequiredMm + 1);
          const expandedMargin = applyPdfMarginState();
          ... three cycles ...
          estimated = await estimateFootnoteAreaMmInBrowser(...);
      }
  }
  \<close>
\<close>

definition footerSizing ::
  "bool \<Rightarrow> (real \<Rightarrow> 'p \<Rightarrow> 'p) \<Rightarrow> ('p \<Rightarrow> real) \<Rightarrow> 'p sizing_state \<Rightarrow> 'p sizing_state" where
  "footerSizing hasFootnotes renderPlan estimate s =
     (if hasFootnotes
      then let s1 = three_cycles renderPlan s;
               s2 = s1\<lparr>estimated := estimate (activeFootnotePlan s1)\<rparr>
           in if estimated s2 > footnoteAreaMm s2 + 0.25
              then let s3 = applyPdfMarginState
                              (s2\<lparr>footnoteAreaMm := of_int \<lceil>estimated s2 + 1\<rceil>,
                                  expansions := expansions s2 + 1\<rparr>);
                       s4 = three_cycles renderPlan s3
                   in s4\<lparr>estimated := estimate (activeFootnotePlan s4)\<rparr>
              else s2
      else s)"

section \<open>Links of footnote fragments\<close>

text \<open>
  \<open>decodeURIComponent\<close> and \<open>encodeURIComponent\<close> are built in and are parameters
  here; each returns \<open>None\<close> where the built-in throws a \<open>URIError\<close>.
  \<^verbatim>\<open>
  function safeDecodeURIComponent(value) {
      try { return decodeURIComponent(value); } catch (_) { return value; }
  }
  \<close>
\<close>

datatype js_error = URIError

datatype link_spec = InternalLink string | ExternalLink string

definition safeDecodeURIComponent :: "(string \<Rightarrow> string option) \<Rightarrow> string \<Rightarrow> string" where
  "safeDecodeURIComponent decodeURIComponent v =
     (case decodeURIComponent v of Some d \<Rightarrow> d | None \<Rightarrow> v)"

text \<open>The test \<open>/^[a-z][a-z0-9+.-]*:/i\<close>: a letter, then letters, digits, \<open>+\<close>, \<open>.\<close> and
  \<open>-\<close>, then a colon.\<close>

definition is_letter :: "char \<Rightarrow> bool" where
  "is_letter c \<longleftrightarrow> c \<in> set ''abcdefghijklmnopqrstuvwxyzABCDEFGHIJKLMNOPQRSTUVWXYZ''"

definition scheme_char :: "char \<Rightarrow> bool" where
  "scheme_char c \<longleftrightarrow> is_letter c \<or> c \<in> set ''0123456789+.-''"

definition hasScheme :: "string \<Rightarrow> bool" where
  "hasScheme raw =
     (case raw of
        [] \<Rightarrow> False
      | c # cs \<Rightarrow> is_letter c \<and>
                 (case dropWhile scheme_char cs of [] \<Rightarrow> False | d # _ \<Rightarrow> d = CHR '':''))"

text \<open>
  \<open>resolveFootnoteLinkSpec(href, existingDestinationNames)\<close>. The result is \<open>Inl\<close> of
  the error if the unguarded \<open>encodeURIComponent\<close> throws, else \<open>Inr\<close> of the link or of
  \<open>None\<close> for \<open>null\<close>. A \<open>null\<close> \<open>href\<close> is the empty string here, as \<open>String(href || '')\<close>
  makes it.
\<close>

definition resolveFootnoteLinkSpec ::
  "(string \<Rightarrow> string option) \<Rightarrow> (string \<Rightarrow> string option) \<Rightarrow> string \<Rightarrow> string set \<Rightarrow>
     js_error + link_spec option" where
  "resolveFootnoteLinkSpec decodeURIComponent encodeURIComponent href existingDestinationNames =
     (let raw = trim href
      in if raw = [] then Inr None
         else if startsWith raw ''#'' then
           (let rawHash = drop 1 raw
            in if rawHash = [] then Inr None
               else let decoded = safeDecodeURIComponent decodeURIComponent rawHash
                    in case encodeURIComponent decoded of
                         None \<Rightarrow> Inl URIError
                       | Some encodedDecoded \<Rightarrow>
                           (let candidates = filter (\<lambda>v. v \<noteq> [])
                                  (map trim [rawHash, decoded, encodedDecoded]);
                                uniqueCandidates = firsts candidates
                            in case find (\<lambda>c. c \<in> existingDestinationNames) uniqueCandidates of
                                 Some preferred \<Rightarrow> Inr (Some (InternalLink preferred))
                               | None \<Rightarrow>
                                   (case uniqueCandidates of
                                      [] \<Rightarrow> Inr None
                                    | preferred # _ \<Rightarrow> Inr (Some (InternalLink preferred)))))
         else if hasScheme raw \<or> startsWith raw ''/'' then Inr (Some (ExternalLink raw))
         else Inr None)"

section \<open>The document graph editor\<close>

text \<open>
  The PDF document as far as the two injection functions read and write it: the pages,
  each with its size, its content stream (a list of drawing operations, \<open>BaseContent\<close>
  standing for what the renderer put there) and its \<open>/Annots\<close> array (\<open>None\<close> when the
  page has none), and the \<open>/Dests\<close> dictionary of the catalog (\<open>None\<close> when absent), an
  association list in insertion order. A page reference is the index of the page.
\<close>

datatype link_target = UriAction string | NamedDest string

record annotation =
  annot_rect :: "real \<times> real \<times> real \<times> real"
  annot_target :: link_target
  annot_parent :: "nat option"

datatype draw_op =
    BaseContent nat
  | DrawPage nat
  | DrawLine real real real real
  | DrawText string real real

record pdf_page =
  page_width :: real
  page_height :: real
  page_content :: "draw_op list"
  page_annots :: "annotation list option"

record destination =
  dest_page :: nat
  dest_x :: real
  dest_y :: real

record pdf_doc =
  doc_pages :: "pdf_page list"
  doc_dests :: "(string \<times> destination) list option"

text \<open>The library functions that are parameters: the two URI functions, \<open>PDFName.of\<close>
  (\<open>None\<close> where it throws) and the font's \<open>widthOfTextAtSize\<close> at the font size in use.\<close>

record library =
  lib_decode :: "string \<Rightarrow> string option"
  lib_encode :: "string \<Rightarrow> string option"
  lib_pdfName :: "string \<Rightarrow> string option"
  lib_widthOf :: "string \<Rightarrow> real"

text \<open>\<open>Number(v.toFixed(2))\<close>: rounded to two decimals, a half away from zero.\<close>

definition round2 :: "real \<Rightarrow> real" where
  "round2 v = (if v < 0 then - (of_int \<lfloor>- v * 100 + 1 / 2\<rfloor> / 100)
               else of_int \<lfloor>v * 100 + 1 / 2\<rfloor> / 100)"

definition mmToPt :: "real \<Rightarrow> real" where
  "mmToPt mmValue = mmValue * (72 / 25.4)"

text \<open>
  \<^verbatim>\<open>
  function getPdfNameOrNull(name) {
      const raw = String(name || '').trim();
      if (!raw) return null;
      try { return PDFName.of(raw); }
      catch (_) {
          try { return PDFName.of(encodeURIComponent(raw)); } catch (_) { return null; }
      }
  }
  \<close>
\<close>

definition getPdfNameOrNull :: "library \<Rightarrow> string \<Rightarrow> string option" where
  "getPdfNameOrNull lib name =
     (let raw = trim name
      in if raw = [] then None
         else case lib_pdfName lib raw of
                Some key \<Rightarrow> Some key
              | None \<Rightarrow> (case lib_encode lib raw of
                           None \<Rightarrow> None
                         | Some encoded \<Rightarrow> lib_pdfName lib encoded))"

definition dests_of :: "pdf_doc \<Rightarrow> (string \<times> destination) list" where
  "dests_of doc = (case doc_dests doc of None \<Rightarrow> [] | Some d \<Rightarrow> d)"

text \<open>\<open>ensurePdfDestinationsDict\<close> creates the dictionary when the catalog has none.\<close>

definition ensurePdfDestinationsDict :: "pdf_doc \<Rightarrow> pdf_doc" where
  "ensurePdfDestinationsDict doc = doc\<lparr>doc_dests := Some (dests_of doc)\<rparr>"

definition collectExistingDestinationNames :: "pdf_doc \<Rightarrow> string set" where
  "collectExistingDestinationNames doc = set (filter (\<lambda>k. k \<noteq> []) (map fst (dests_of doc)))"

text \<open>\<open>setPdfNamedDestination\<close> on the dictionary: \<open>destsDict.set(key, destination)\<close>.\<close>

definition setPdfNamedDestination ::
  "library \<Rightarrow> (string \<times> destination) list \<Rightarrow> string \<Rightarrow> nat \<Rightarrow> real \<Rightarrow> real \<Rightarrow>
     (string \<times> destination) list" where
  "setPdfNamedDestination lib destsDict destinationName pageRef xPt yPt =
     (case getPdfNameOrNull lib destinationName of
        None \<Rightarrow> destsDict
      | Some key \<Rightarrow>
          AList.update key \<lparr>dest_page = pageRef, dest_x = round2 xPt, dest_y = round2 yPt\<rparr>
            destsDict)"

definition ensurePdfPageAnnotationsArray :: "pdf_page \<Rightarrow> pdf_page" where
  "ensurePdfPageAnnotationsArray pg =
     pg\<lparr>page_annots := Some (case page_annots pg of None \<Rightarrow> [] | Some a \<Rightarrow> a)\<rparr>"

definition push_annotation :: "annotation \<Rightarrow> pdf_page \<Rightarrow> pdf_page" where
  "push_annotation a pg =
     pg\<lparr>page_annots := Some ((case page_annots pg of None \<Rightarrow> [] | Some as \<Rightarrow> as) @ [a])\<rparr>"

text \<open>\<open>addPdfLinkAnnotation\<close>; the caller's \<open>null\<close> link is \<open>None\<close>.\<close>

definition addPdfLinkAnnotation ::
  "library \<Rightarrow> pdf_page \<Rightarrow> real \<times> real \<times> real \<times> real \<Rightarrow> link_spec option \<Rightarrow> pdf_page" where
  "addPdfLinkAnnotation lib pg rect linkSpec =
     (case linkSpec of
        None \<Rightarrow> pg
      | Some spec \<Rightarrow>
          (case rect of (a, b, c, d) \<Rightarrow>
             (let x1 = round2 a; y1 = round2 b; x2 = round2 c; y2 = round2 d
              in if x2 \<le> x1 \<or> y2 \<le> y1 then pg
                 else case spec of
                        ExternalLink href \<Rightarrow>
                          push_annotation \<lparr>annot_rect = (x1, y1, x2, y2),
                             annot_target = UriAction href, annot_parent = None\<rparr> pg
                      | InternalLink dest \<Rightarrow>
                          (case getPdfNameOrNull lib dest of
                             None \<Rightarrow> pg
                           | Some key \<Rightarrow>
                               push_annotation \<lparr>annot_rect = (x1, y1, x2, y2),
                                  annot_target = NamedDest key, annot_parent = None\<rparr> pg))))"

subsection \<open>Drawing the footnotes on the pages\<close>

record final_plan =
  finalPage :: int
  fp_items :: "footnote_item list"

record inject_options =
  leftMarginMm :: real
  rightMarginMm :: real
  opt_bottomMarginMm :: real
  opt_pageNumberBandMm :: real
  fontSizePt :: real
  lineHeightMultiplier :: real
  itemGapPt :: real
  topPaddingPt :: real
  bottomPaddingPt :: real

definition lineHeightPt :: "inject_options \<Rightarrow> real" where
  "lineHeightPt opts = fontSizePt opts * lineHeightMultiplier opts"

definition footnoteMinY :: "inject_options \<Rightarrow> real" where
  "footnoteMinY opts = mmToPt (opt_pageNumberBandMm opts) + bottomPaddingPt opts"

definition footnoteTopY :: "inject_options \<Rightarrow> real" where
  "footnoteTopY opts = mmToPt (opt_bottomMarginMm opts) - topPaddingPt opts"

text \<open>\<open>getFootnoteDisplayLabel\<close>: \<open>N.\<close> for one number, the joined list for several.\<close>

definition getFootnoteDisplayLabel :: "footnote_item \<Rightarrow> string" where
  "getFootnoteDisplayLabel item =
     (let rawLabel = trim (if numberLabel item \<noteq> [] then numberLabel item
                           else if number item \<noteq> 0 then string_of_nat (number item) else [])
      in if rawLabel = [] then []
         else if length (filter (\<lambda>v. 0 < v) (numbers item)) > 1 \<or> CHR '','' \<in> set rawLabel
         then rawLabel else rawLabel @ ''.'')"

definition layoutFootnotesForPage ::
  "footnote_item list \<Rightarrow> real \<Rightarrow> (string \<Rightarrow> real) \<Rightarrow> (footnote_item \<times> fragment list list) list" where
  "layoutFootnotesForPage its maxWidthPt widthOf =
     map (\<lambda>item. (item,
            layoutFootnoteSegments
              (Segment (getFootnoteDisplayLabel item @ '' '') None #
               cloneFootnoteSegments (segments item)) maxWidthPt widthOf)) its"

text \<open>A loop whose body can throw: the first error ends it.\<close>

fun fold_err :: "('s \<Rightarrow> 'a \<Rightarrow> 'e + 's) \<Rightarrow> 's \<Rightarrow> 'a list \<Rightarrow> 'e + 's" where
  "fold_err f s [] = Inr s"
| "fold_err f s (x # xs) = (case f s x of Inl e \<Rightarrow> Inl e | Inr s' \<Rightarrow> fold_err f s' xs)"

text \<open>The body of \<open>line.forEach\<close>: the state is the page and \<open>cursorX\<close>.\<close>

definition draw_fragment ::
  "library \<Rightarrow> inject_options \<Rightarrow> string set \<Rightarrow> real \<Rightarrow> pdf_page \<times> real \<Rightarrow> fragment \<Rightarrow>
     js_error + pdf_page \<times> real" where
  "draw_fragment lib opts existingDestinationNames cursorY st frag =
     (case st of (pg, cursorX) \<Rightarrow>
        if frag_text frag = [] then Inr (pg, cursorX)
        else let drawn = pg\<lparr>page_content := page_content pg @
                              [DrawText (frag_text frag) cursorX cursorY]\<rparr>
             in case frag_href frag of
                  None \<Rightarrow> Inr (drawn, cursorX + frag_width frag)
                | Some href \<Rightarrow>
                    if href \<noteq> [] \<and> strip_ws (frag_text frag) \<noteq> []
                    then (case resolveFootnoteLinkSpec (lib_decode lib) (lib_encode lib) href
                                 existingDestinationNames of
                            Inl e \<Rightarrow> Inl e
                          | Inr linkSpec \<Rightarrow>
                              Inr (addPdfLinkAnnotation lib drawn
                                     (cursorX, cursorY - 1.2, cursorX + frag_width frag,
                                      cursorY + lineHeightPt opts - 1) linkSpec,
                                   cursorX + frag_width frag))
                    else Inr (drawn, cursorX + frag_width frag))"

text \<open>The body of \<open>itemLayout.lines.forEach\<close>: the state is the page and \<open>cursorY\<close>.\<close>

definition draw_line ::
  "library \<Rightarrow> inject_options \<Rightarrow> string set \<Rightarrow> pdf_page \<times> real \<Rightarrow> fragment list \<Rightarrow>
     js_error + pdf_page \<times> real" where
  "draw_line lib opts existingDestinationNames st line =
     (case st of (pg, cursorY) \<Rightarrow>
        if cursorY < footnoteMinY opts then Inr (pg, cursorY)
        else case fold_err (draw_fragment lib opts existingDestinationNames cursorY)
                    (pg, mmToPt (leftMarginMm opts)) line of
               Inl e \<Rightarrow> Inl e
             | Inr (pg', cursorX) \<Rightarrow> Inr (pg', cursorY - lineHeightPt opts))"

record draw_state =
  ds_page :: pdf_page
  ds_dests :: "(string \<times> destination) list"
  ds_existing :: "string set"
  ds_cursorY :: real

text \<open>The loop \<open>layout.itemLayouts.forEach\<close> on the page with the index \<open>pageRef\<close>.\<close>

fun draw_items ::
  "library \<Rightarrow> inject_options \<Rightarrow> nat \<Rightarrow> draw_state \<Rightarrow> (footnote_item \<times> fragment list list) list \<Rightarrow>
     js_error + draw_state" where
  "draw_items lib opts pageRef st [] = Inr st"
| "draw_items lib opts pageRef st ((item, ls) # rest) =
     (if ls = [] then draw_items lib opts pageRef st rest
      else let dests = setPdfNamedDestination lib (ds_dests st) (destName item) pageRef
                         (mmToPt (leftMarginMm opts)) (ds_cursorY st + lineHeightPt opts);
               existing = insert (destName item) (ds_existing st)
           in case fold_err (draw_line lib opts existing) (ds_page st, ds_cursorY st) ls of
                Inl e \<Rightarrow> Inl e
              | Inr (pg, cursorY) \<Rightarrow>
                  draw_items lib opts pageRef
                    \<lparr>ds_page = pg, ds_dests = dests, ds_existing = existing,
                     ds_cursorY = (if rest \<noteq> [] then cursorY - itemGapPt opts else cursorY)\<rparr>
                    rest)"

text \<open>The body of \<open>finalFootnotePlans.forEach\<close>: the state is the document and the set
  \<open>existingDestinationNames\<close>.\<close>

definition inject_plan ::
  "library \<Rightarrow> inject_options \<Rightarrow> pdf_doc \<times> string set \<Rightarrow> final_plan \<Rightarrow>
     js_error + pdf_doc \<times> string set" where
  "inject_plan lib opts st pagePlan =
     (case st of (doc, existing) \<Rightarrow>
        (let pageIndex = finalPage pagePlan - 1
         in if pageIndex < 0 \<or> pageIndex \<ge> int (length (doc_pages doc)) then Inr (doc, existing)
            else
              (let pg = doc_pages doc ! nat pageIndex;
                   availableWidthPt = max 40 (page_width pg - mmToPt (leftMarginMm opts)
                                                - mmToPt (rightMarginMm opts));
                   layout = layoutFootnotesForPage (fp_items pagePlan) availableWidthPt
                              (lib_widthOf lib)
               in if layout = [] then Inr (doc, existing)
                  else
                    (let ruled = pg\<lparr>page_content := page_content pg @
                                   [DrawLine (mmToPt (leftMarginMm opts))
                                      (mmToPt (opt_bottomMarginMm opts) - 0.8)
                                      (page_width pg - mmToPt (rightMarginMm opts))
                                      (mmToPt (opt_bottomMarginMm opts) - 0.8)]\<rparr>
                     in case draw_items lib opts (nat pageIndex)
                               \<lparr>ds_page = ruled, ds_dests = dests_of doc, ds_existing = existing,
                                ds_cursorY = footnoteTopY opts - fontSizePt opts\<rparr> layout of
                          Inl e \<Rightarrow> Inl e
                        | Inr st' \<Rightarrow>
                            Inr (doc\<lparr>doc_pages := (doc_pages doc)[nat pageIndex := ds_page st'],
                                    doc_dests := Some (ds_dests st')\<rparr>,
                                 ds_existing st')))))"

text \<open>\<open>injectFootnotesIntoPdf\<close>: the document that is written back, or the error that
  ends the function before it writes.\<close>

definition injectFootnotesIntoPdf ::
  "library \<Rightarrow> inject_options \<Rightarrow> pdf_doc \<Rightarrow> final_plan list \<Rightarrow> js_error + pdf_doc" where
  "injectFootnotesIntoPdf lib opts doc finalFootnotePlans =
     (if finalFootnotePlans = [] then Inr doc
      else let prepared = ensurePdfDestinationsDict doc
           in case fold_err (inject_plan lib opts)
                     (prepared, collectExistingDestinationNames prepared) finalFootnotePlans of
                Inl e \<Rightarrow> Inl e
              | Inr (doc', existing) \<Rightarrow> Inr doc')"

subsection \<open>Merging the overlay\<close>

text \<open>
  The overlay document is rendered by the browser from the plans: its pages, each with
  the \<open>/Annots\<close> array of the copied page (an entry is \<open>None\<close> where the array holds no
  reference), and the coordinates of the footnote anchors that the page reports.
\<close>

record overlay_page =
  ov_annots :: "annotation option list option"

record dest_coord =
  dc_destName :: string
  dc_pageNumber :: int
  dc_xPt :: real
  dc_yFromTopPt :: real

definition merge_overlay_page :: "nat \<Rightarrow> pdf_page \<Rightarrow> overlay_page \<Rightarrow> pdf_page" where
  "merge_overlay_page pageIndex basePage ov =
     (let drawn = basePage\<lparr>page_content := page_content basePage @ [DrawPage pageIndex]\<rparr>
      in case ov_annots ov of
           None \<Rightarrow> drawn
         | Some overlayAnnots \<Rightarrow>
             foldl (\<lambda>pg annotRef.
                      case annotRef of
                        None \<Rightarrow> pg
                      | Some a \<Rightarrow> push_annotation (a\<lparr>annot_parent := Some pageIndex\<rparr>) pg)
                   (ensurePdfPageAnnotationsArray drawn) overlayAnnots)"

definition register_dest ::
  "library \<Rightarrow> pdf_page list \<Rightarrow> (string \<times> destination) list \<times> string set \<Rightarrow> dest_coord \<Rightarrow>
     (string \<times> destination) list \<times> string set" where
  "register_dest lib basePages st dest =
     (case st of (baseDests, seenDestinationNames) \<Rightarrow>
        if \<not> startsWith (dc_destName dest) ''export-footnote-'' then st
        else if dc_destName dest \<in> seenDestinationNames then st
        else let pageIndex = dc_pageNumber dest - 1
             in if pageIndex < 0 \<or> pageIndex \<ge> int (length basePages) then st
                else let pageHeightPt = page_height (basePages ! nat pageIndex);
                         yPt = max 0 (min pageHeightPt (pageHeightPt - dc_yFromTopPt dest))
                     in (setPdfNamedDestination lib baseDests (dc_destName dest) (nat pageIndex)
                           (dc_xPt dest) yPt,
                         insert (dc_destName dest) seenDestinationNames))"

definition injectFootnotesOverlayIntoPdf ::
  "library \<Rightarrow> pdf_doc \<Rightarrow> final_plan list \<Rightarrow> overlay_page list \<Rightarrow> dest_coord list \<Rightarrow> pdf_doc" where
  "injectFootnotesOverlayIntoPdf lib doc finalFootnotePlans overlayPages overlayDestinationCoordinates =
     (if finalFootnotePlans = [] then doc
      else let totalPages = length (doc_pages doc)
           in if totalPages \<le> 0 then doc
              else let pagesToMerge = min totalPages (length overlayPages)
                   in if pagesToMerge \<le> 0 then doc
                      else
                        (let basePages =
                               map (\<lambda>i. merge_overlay_page i (doc_pages doc ! i) (overlayPages ! i))
                                 [0..<pagesToMerge] @ drop pagesToMerge (doc_pages doc);
                             baseDests = dests_of doc
                         in doc\<lparr>doc_pages := basePages,
                               doc_dests := Some (fst (foldl (register_dest lib basePages)
                                 (baseDests, {}) overlayDestinationCoordinates))\<rparr>))"

text \<open>
  What an injection may do to a page: add to the end of its content and to the end of its
  annotation array (or create the array). And to the document: the pages outside \<open>P\<close>
  stay as they are, every destination stays in the table, and those with a name outside
  \<open>K\<close> stay as they are.
\<close>

definition page_extends :: "pdf_page \<Rightarrow> pdf_page \<Rightarrow> bool" where
  "page_extends p p' \<longleftrightarrow>
     page_width p' = page_width p \<and> page_height p' = page_height p \<and>
     prefix (page_content p) (page_content p') \<and>
     (case page_annots p of
        None \<Rightarrow> True
      | Some a \<Rightarrow> (case page_annots p' of None \<Rightarrow> False | Some a' \<Rightarrow> prefix a a'))"

definition dests_kept ::
  "string set \<Rightarrow> (string \<times> destination) list \<Rightarrow> (string \<times> destination) list \<Rightarrow> bool" where
  "dests_kept K d d' \<longleftrightarrow>
     fst ` set d \<subseteq> fst ` set d' \<and> (\<forall>k. k \<notin> K \<longrightarrow> map_of d' k = map_of d k)"

definition doc_frame :: "string set \<Rightarrow> nat set \<Rightarrow> pdf_doc \<Rightarrow> pdf_doc \<Rightarrow> bool" where
  "doc_frame K P doc doc' \<longleftrightarrow>
     list_all2 page_extends (doc_pages doc) (doc_pages doc') \<and>
     (\<forall>i<length (doc_pages doc). i \<notin> P \<longrightarrow> doc_pages doc' ! i = doc_pages doc ! i) \<and>
     dests_kept K (dests_of doc) (dests_of doc')"

text \<open>The pages that the plans draw on, and the names under which the plans and the
  overlay coordinates register destinations.\<close>

definition planned_pages :: "final_plan list \<Rightarrow> nat set" where
  "planned_pages plans =
     set (concat (map (\<lambda>p. if 1 \<le> finalPage p \<and> fp_items p \<noteq> []
                            then [nat (finalPage p - 1)] else []) plans))"

definition item_dest_names :: "library \<Rightarrow> footnote_item list \<Rightarrow> string set" where
  "item_dest_names lib its =
     set (concat (map (\<lambda>it. case getPdfNameOrNull lib (destName it) of
                               None \<Rightarrow> [] | Some k \<Rightarrow> [k]) its))"

definition plan_dest_names :: "library \<Rightarrow> final_plan list \<Rightarrow> string set" where
  "plan_dest_names lib plans = (\<Union>p \<in> set plans. item_dest_names lib (fp_items p))"

definition coord_dest_names :: "library \<Rightarrow> dest_coord list \<Rightarrow> string set" where
  "coord_dest_names lib coords =
     set (concat (map (\<lambda>c. if startsWith (dc_destName c) ''export-footnote-''
                            then (case getPdfNameOrNull lib (dc_destName c) of
                                    None \<Rightarrow> [] | Some k \<Rightarrow> [k])
                            else []) coords))"

section \<open>Properties of the string helpers\<close>

lemma safe_char_digit: "safe_char (digit_char d)"
proof -
  have "d mod 10 < length ''0123456789''" by simp
  then have "''0123456789'' ! (d mod 10) \<in> set ''0123456789''" by (rule nth_mem)
  moreover have "\<forall>c \<in> set ''0123456789''. safe_char c" by (simp add: safe_char_def)
  ultimately show ?thesis unfolding digit_char_def by blast
qed

lemma safe_string_of_nat: "\<forall>c \<in> set (string_of_nat n). safe_char c"
proof (induction n rule: string_of_nat.induct)
  case (1 n)
  show ?case
  proof (cases "n < 10")
    case True
    then show ?thesis by (subst string_of_nat.simps) (simp add: safe_char_digit)
  next
    case False
    with 1 show ?thesis by (subst string_of_nat.simps) (simp add: safe_char_digit)
  qed
qed

lemma string_of_nat_nonempty: "string_of_nat n \<noteq> []"
  by (subst string_of_nat.simps) simp

lemma safe_replace_runs:
  "safe_char r \<Longrightarrow> \<forall>c \<in> set (replace_runs (\<lambda>c. \<not> safe_char c) r b s). safe_char c"
  by (induction s arbitrary: b) auto

lemma set_strip_dashes: "set (strip_dashes s) \<subseteq> set s"
proof -
  have "set (strip_dashes s) \<subseteq> set (rev (dropWhile (\<lambda>c. c = CHR ''-'') s))"
    unfolding strip_dashes_def using set_dropWhileD by fastforce
  also have "\<dots> \<subseteq> set s" using set_dropWhileD by fastforce
  finally show ?thesis .
qed

lemma sanitize_cases:
  "(sanitizeFootnoteToken v fb = fb \<or>
     (sanitizeFootnoteToken v fb \<noteq> [] \<and> length (sanitizeFootnoteToken v fb) \<le> 48 \<and>
      (\<forall>c \<in> set (sanitizeFootnoteToken v fb). safe_char c)))"
proof -
  define r where "r = replace_runs (\<lambda>c. \<not> safe_char c) (CHR ''-'') False (toLowerCase (trim v))"
  define safe where "safe = take 48 (strip_dashes r)"
  have res: "sanitizeFootnoteToken v fb = (if safe = [] then fb else safe)"
    unfolding sanitizeFootnoteToken_def Let_def safe_def r_def ..
  have "safe_char (CHR ''-'')" by (simp add: safe_char_def)
  then have "\<forall>c \<in> set r. safe_char c" unfolding r_def by (rule safe_replace_runs)
  moreover have "set safe \<subseteq> set r"
    using set_take_subset[of 48 "strip_dashes r"] set_strip_dashes[of r]
    unfolding safe_def by (rule subset_trans)
  ultimately have s: "\<forall>c \<in> set safe. safe_char c" by blast
  have l: "length safe \<le> 48" unfolding safe_def by simp
  show ?thesis
  proof (cases "safe = []")
    case True
    then show ?thesis by (simp add: res)
  next
    case False
    then show ?thesis using s l by (simp add: res)
  qed
qed

lemma dest_ok_make_destName: "dest_ok (make_destName k t n)"
proof -
  define tok where "tok = sanitizeFootnoteToken t (''fn-'' @ string_of_nat n)"
  define pre where "pre = ''export-footnote-''"
  have d: "make_destName k t n = pre @ string_of_nat k @ ''-'' @ tok"
    by (simp add: make_destName_def tok_def pre_def)
  have f: "\<forall>c \<in> set ''fn-''. safe_char c" by (simp add: safe_char_def)
  have fb: "\<forall>c \<in> set (''fn-'' @ string_of_nat n). safe_char c"
    unfolding set_append ball_Un using f safe_string_of_nat[of n] by (rule conjI)
  have tok_safe: "\<forall>c \<in> set tok. safe_char c"
    using sanitize_cases[of t "''fn-'' @ string_of_nat n"] fb unfolding tok_def by metis
  have tok_ne: "tok \<noteq> []"
    using sanitize_cases[of t "''fn-'' @ string_of_nat n"] unfolding tok_def
    by (metis append_is_Nil_conv string_of_nat_nonempty)
  have tok_len: "length tok \<le> 48 \<or> (\<exists>m. tok = ''fn-'' @ string_of_nat m)"
    using sanitize_cases[of t "''fn-'' @ string_of_nat n"] unfolding tok_def by metis
  have p: "\<forall>c \<in> set pre. safe_char c" by (simp add: safe_char_def pre_def)
  have dash: "\<forall>c \<in> set ''-''. safe_char c" by (simp add: safe_char_def)
  have safe: "\<forall>c \<in> set (make_destName k t n). safe_char c"
    unfolding d set_append ball_Un
    using p tok_safe safe_string_of_nat[of k] dash by (intro conjI)
  have shape: "\<exists>k' tok'. make_destName k t n = ''export-footnote-'' @ string_of_nat k' @ ''-'' @ tok' \<and>
       tok' \<noteq> [] \<and> (length tok' \<le> 48 \<or> (\<exists>m. tok' = ''fn-'' @ string_of_nat m))"
    using d tok_ne tok_len unfolding pre_def by (intro exI[of _ k] exI[of _ tok] conjI)
  have ne: "make_destName k t n \<noteq> []" by (simp add: d pre_def)
  show ?thesis unfolding dest_ok_def using ne safe shape by (intro conjI)
qed

section \<open>Properties of the plan builder\<close>

lemma numbering_inv_new_entry: "numbering_inv (new_entry p)"
  by (simp add: numbering_inv_def new_entry_def)

lemma reusable_item_SomeD:
  assumes "reusable_item e t key n = Some i"
  shows "i < length (items e)"
    and "\<exists>l. lastAssignedNumber (items e ! i) = Some l \<and> Suc l = n"
    and "byTargetId e t = Some i \<or> (\<exists>k. key = Some k \<and> byDefinitionKey e k = Some i)"
  using assms
  by (auto simp: reusable_item_def Let_def isContiguous_def item_at_def
           split: if_splits option.splits)

lemma record_number_simps [simp]:
  "numbers (record_number n it) = numbers it @ [n]"
  "lastAssignedNumber (record_number n it) = Some n"
  "targetId (record_number n it) = targetId it"
  "targetIds (record_number n it) = targetIds it"
  "destName (record_number n it) = destName it"
  "segments (record_number n it) = segments it"
  by (simp_all add: record_number_def Let_def)

lemma add_targetId_simps [simp]:
  "numbers (add_targetId t it) = numbers it"
  "lastAssignedNumber (add_targetId t it) = lastAssignedNumber it"
  "targetId (add_targetId t it) = targetId it"
  "destName (add_targetId t it) = destName it"
  "segments (add_targetId t it) = segments it"
  "set (targetIds (add_targetId t it)) = insert t (set (targetIds it))"
  by (auto simp: add_targetId_def)

lemma new_item_simps [simp]:
  "numbers (new_item t d s) = []"
  "targetId (new_item t d s) = t"
  "targetIds (new_item t d s) = [t]"
  "destName (new_item t d s) = d"
  "segments (new_item t d s) = s"
  by (simp_all add: new_item_def)

text \<open>The two shapes of the result of place_ref.\<close>

lemma place_ref_new:
  assumes "reusable_item e t (definitionGroupKey defs t) (nextNumber e) = None"
  shows "place_ref defs c e t =
     (e\<lparr>items := items e @ [record_number (nextNumber e)
                  (new_item t (make_destName (Suc c) t (nextNumber e)) (segments_for defs t))],
        nextNumber := Suc (nextNumber e),
        byTargetId := (byTargetId e)(t \<mapsto> length (items e)),
        byDefinitionKey := (case definitionGroupKey defs t of None \<Rightarrow> byDefinitionKey e
               | Some k \<Rightarrow> (byDefinitionKey e)(k \<mapsto> length (items e)))\<rparr>,
      Suc c, length (items e))"
  using assms by (simp add: place_ref_def Let_def)

lemma place_ref_reuse:
  assumes "reusable_item e t (definitionGroupKey defs t) (nextNumber e) = Some i"
  shows "place_ref defs c e t =
     (e\<lparr>items := (items e)[i := record_number (nextNumber e) (add_targetId t (items e ! i))],
        nextNumber := Suc (nextNumber e),
        byTargetId := (byTargetId e)(t \<mapsto> i),
        byDefinitionKey := (case definitionGroupKey defs t of None \<Rightarrow> byDefinitionKey e
               | Some k \<Rightarrow> (byDefinitionKey e)(k \<mapsto> i))\<rparr>,
      c, i)"
  using assms reusable_item_SomeD(1)[OF assms]
  by (simp add: place_ref_def Let_def)

lemma numbering_reuse_is_last:
  assumes "numbering_inv e"
    and "reusable_item e t key (nextNumber e) = Some i"
  shows "Suc i = length (items e)"
  using assms reusable_item_SomeD(1,2)[OF assms(2)]
  by (auto simp: numbering_inv_def)

lemma place_ref_numbering:
  assumes inv: "numbering_inv e" and pl: "place_ref defs c e t = (e', c', idx)"
  shows "numbering_inv e'"
    and "nextNumber e' = Suc (nextNumber e)"
    and "Suc idx = length (items e')"
    and "lastAssignedNumber (items e' ! idx) = Some (nextNumber e)"
proof -
  let ?n = "nextNumber e"
  let ?r = "reusable_item e t (definitionGroupKey defs t) ?n"
  have "numbering_inv e' \<and> nextNumber e' = Suc ?n \<and> Suc idx = length (items e') \<and>
        lastAssignedNumber (items e' ! idx) = Some ?n"
  proof (cases ?r)
    case None
    from pl place_ref_new[OF None, of c] have
      e': "e' = e\<lparr>items := items e @ [record_number ?n
                  (new_item t (make_destName (Suc c) t ?n) (segments_for defs t))],
        nextNumber := Suc ?n,
        byTargetId := (byTargetId e)(t \<mapsto> length (items e)),
        byDefinitionKey := (case definitionGroupKey defs t of None \<Rightarrow> byDefinitionKey e
               | Some k \<Rightarrow> (byDefinitionKey e)(k \<mapsto> length (items e)))\<rparr>"
      and idx: "idx = length (items e)" by auto
    from inv show ?thesis unfolding e' idx numbering_inv_def
      by (auto simp: nth_append less_Suc_eq)
  next
    case (Some i)
    from pl place_ref_reuse[OF Some, of c] have
      e': "e' = e\<lparr>items := (items e)[i := record_number ?n (add_targetId t (items e ! i))],
        nextNumber := Suc ?n,
        byTargetId := (byTargetId e)(t \<mapsto> i),
        byDefinitionKey := (case definitionGroupKey defs t of None \<Rightarrow> byDefinitionKey e
               | Some k \<Rightarrow> (byDefinitionKey e)(k \<mapsto> i))\<rparr>"
      and idx: "idx = i" by auto
    have last: "Suc i = length (items e)" by (rule numbering_reuse_is_last[OF inv Some])
    then obtain xs x where its: "items e = xs @ [x]" and i: "i = length xs"
      by (metis length_Suc_conv_rev nat.inject)
    from inv have c: "concat (map numbers xs) @ numbers x = [1..<?n]" and n: "1 \<le> ?n"
      and old: "\<forall>j<length xs. \<exists>l. lastAssignedNumber (xs ! j) = Some l \<and> Suc l \<le> ?n"
      by (auto simp: numbering_inv_def its nth_append less_Suc_eq)
    show ?thesis unfolding e' idx numbering_inv_def
      using c n old by (auto simp: its i nth_append less_Suc_eq le_Suc_eq)
  qed
  then show "numbering_inv e'" "nextNumber e' = Suc ?n" "Suc idx = length (items e')"
    "lastAssignedNumber (items e' ! idx) = Some ?n" by simp_all
qed


lemma valid_refs_append [simp]: "valid_refs (xs @ ys) = valid_refs xs @ valid_refs ys"
  by (induction xs rule: valid_refs.induct) simp_all

lemma refs_on_page_snoc:
  "refs_on_page mp p (rs @ [x]) =
     refs_on_page mp p rs @
       (case x of None \<Rightarrow> [] | Some r \<Rightarrow> if resolvePage mp r = Some p then [r] else [])"
  by (simp add: refs_on_page_def split: option.split)

lemma run_refs_Nil [simp]: "run_refs mp defs [] = initial_state"
  by (simp add: run_refs_def)

lemma run_refs_snoc:
  "run_refs mp defs (rs @ [x]) = processRef mp defs (run_refs mp defs rs) x"
  by (simp add: run_refs_def)

lemma run_refs_append:
  "run_refs mp defs (rs @ ys) = foldl (processRef mp defs) (run_refs mp defs rs) ys"
  by (simp add: run_refs_def)

lemma processRef_None [simp]: "processRef mp defs st None = st"
  by (simp add: processRef_def)

lemma processRef_unresolved:
  "resolvePage mp r = None \<Longrightarrow>
     processRef mp defs st (Some r) = st\<lparr>unresolvedRefs := unresolvedRefs st @ [refIndex r]\<rparr>"
  by (simp add: processRef_def)

lemma processRef_resolved:
  assumes "resolvePage mp r = Some p"
    and "place_ref defs (destinationCounter st) (entry_of st p) (ref_targetId r) = (e', c', idx)"
  shows "processRef mp defs st (Some r) =
     st\<lparr>pages := AList.update p e' (pages st),
        destinationCounter := c',
        refUpdates := refUpdates st @
          [\<lparr>upd_refIndex = refIndex r,
            newNumber = nextNumber (entry_of st p),
            newLabel = string_of_nat (nextNumber (entry_of st p)),
            upd_destName = destName (items e' ! idx)\<rparr>]\<rparr>"
  using assms by (simp add: processRef_def)

lemma entry_of_update:
  "entry_of (st\<lparr>pages := AList.update p e (pages st), destinationCounter := c, refUpdates := u\<rparr>) q =
     (if q = p then e else entry_of st q)"
  by (simp add: entry_of_def update_conv')

lemma entry_of_unresolved [simp]:
  "entry_of (st\<lparr>unresolvedRefs := u\<rparr>) q = entry_of st q"
  by (simp add: entry_of_def)

lemma entry_of_processRef:
  "entry_of (processRef mp defs st x) q =
     (case x of None \<Rightarrow> entry_of st q
      | Some r \<Rightarrow> if resolvePage mp r = Some q
                  then fst (place_ref defs (destinationCounter st) (entry_of st q) (ref_targetId r))
                  else entry_of st q)"
proof (cases x)
  case None
  then show ?thesis by simp
next
  case (Some r)
  show ?thesis
  proof (cases "resolvePage mp r")
    case None
    with Some show ?thesis by (simp add: processRef_unresolved)
  next
    case (Some p)
    obtain e' c' idx where pl:
      "place_ref defs (destinationCounter st) (entry_of st p) (ref_targetId r) = (e', c', idx)"
      by (cases "place_ref defs (destinationCounter st) (entry_of st p) (ref_targetId r)")
    show ?thesis using \<open>x = Some r\<close> Some pl
      by (auto simp: processRef_resolved[OF Some pl] entry_of_update)
  qed
qed

lemma entry_of_initial [simp]: "entry_of initial_state p = new_entry p"
  by (simp add: entry_of_def initial_state_def)

lemma entry_numbering:
  "numbering_inv (entry_of (run_refs mp defs rs) p) \<and>
   nextNumber (entry_of (run_refs mp defs rs) p) = Suc (length (refs_on_page mp p rs))"
proof (induction rs rule: rev_induct)
  case Nil
  show ?case by (simp add: numbering_inv_new_entry) (simp add: new_entry_def refs_on_page_def)
next
  case (snoc x rs)
  let ?st = "run_refs mp defs rs"
  show ?case
  proof (cases "\<exists>r. x = Some r \<and> resolvePage mp r = Some p")
    case False
    then show ?thesis using snoc
      by (auto simp: run_refs_snoc entry_of_processRef refs_on_page_snoc split: option.splits)
  next
    case True
    then obtain r where x: "x = Some r" and r: "resolvePage mp r = Some p" by blast
    obtain e' c' idx where pl:
      "place_ref defs (destinationCounter ?st) (entry_of ?st p) (ref_targetId r) = (e', c', idx)"
      by (cases "place_ref defs (destinationCounter ?st) (entry_of ?st p) (ref_targetId r)")
    from snoc have inv: "numbering_inv (entry_of ?st p)" by simp
    show ?thesis using place_ref_numbering(1,2)[OF inv pl] snoc
      by (simp add: run_refs_snoc entry_of_processRef x r pl refs_on_page_snoc)
  qed
qed


lemma pages_processRef:
  "fst ` set (pages (processRef mp defs st x)) =
     fst ` set (pages st) \<union>
       (case x of None \<Rightarrow> {}
        | Some r \<Rightarrow> (case resolvePage mp r of None \<Rightarrow> {} | Some p \<Rightarrow> {p}))"
proof (cases x)
  case None
  then show ?thesis by simp
next
  case (Some r)
  show ?thesis
  proof (cases "resolvePage mp r")
    case None
    with Some show ?thesis by (simp add: processRef_unresolved)
  next
    case (Some p)
    obtain e' c' idx where pl:
      "place_ref defs (destinationCounter st) (entry_of st p) (ref_targetId r) = (e', c', idx)"
      by (cases "place_ref defs (destinationCounter st) (entry_of st p) (ref_targetId r)")
    show ?thesis using \<open>x = Some r\<close> Some
      by (simp add: processRef_resolved[OF Some pl] dom_update)
  qed
qed

lemma pages_keys:
  "fst ` set (pages (run_refs mp defs rs)) = {p. refs_on_page mp p rs \<noteq> []}"
proof (induction rs rule: rev_induct)
  case Nil
  show ?case by (simp add: initial_state_def refs_on_page_def)
next
  case (snoc x rs)
  show ?case
    by (auto simp: run_refs_snoc pages_processRef snoc refs_on_page_snoc split: option.splits)
qed

lemma refUpdates_processRef:
  "\<exists>u. refUpdates (processRef mp defs st x) =
         refUpdates st @
           (case x of None \<Rightarrow> []
            | Some r \<Rightarrow> (case resolvePage mp r of None \<Rightarrow> []
                         | Some p \<Rightarrow> [u\<lparr>upd_refIndex := refIndex r,
                                        newNumber := nextNumber (entry_of st p)\<rparr>]))"
proof (cases x)
  case None
  then show ?thesis by simp
next
  case (Some r)
  show ?thesis
  proof (cases "resolvePage mp r")
    case None
    with Some show ?thesis by (simp add: processRef_unresolved)
  next
    case (Some p)
    obtain e' c' idx where pl:
      "place_ref defs (destinationCounter st) (entry_of st p) (ref_targetId r) = (e', c', idx)"
      by (cases "place_ref defs (destinationCounter st) (entry_of st p) (ref_targetId r)")
    show ?thesis using \<open>x = Some r\<close> Some
      by (simp add: processRef_resolved[OF Some pl])
        (rule exI[of _ "\<lparr>upd_refIndex = refIndex r, newNumber = 0, newLabel = string_of_nat (nextNumber (entry_of st p)), upd_destName = destName (items e' ! idx)\<rparr>"], simp)
  qed
qed

lemma resolvePage_Some_iff:
  "resolvePage mp r = Some p \<longleftrightarrow> mp (refIndex r) = Some p \<and> p \<noteq> 0"
  by (auto simp: resolvePage_def split: option.splits)

lemma refUpdates_run:
  "map upd_refIndex (refUpdates (run_refs mp defs rs)) =
     map refIndex [r \<leftarrow> valid_refs rs. resolvePage mp r \<noteq> None] \<and>
   (\<forall>p. 0 < p \<longrightarrow>
      map newNumber [u \<leftarrow> refUpdates (run_refs mp defs rs). mp (upd_refIndex u) = Some p] =
        [1..<Suc (length (refs_on_page mp p rs))])"
proof (induction rs rule: rev_induct)
  case Nil
  show ?case by (simp add: initial_state_def refs_on_page_def)
next
  case (snoc x rs)
  let ?st = "run_refs mp defs rs"
  from refUpdates_processRef[of mp defs ?st x] obtain u where
    u: "refUpdates (processRef mp defs ?st x) =
         refUpdates ?st @
           (case x of None \<Rightarrow> []
            | Some r \<Rightarrow> (case resolvePage mp r of None \<Rightarrow> []
                         | Some p \<Rightarrow> [u\<lparr>upd_refIndex := refIndex r,
                                        newNumber := nextNumber (entry_of ?st p)\<rparr>]))" ..
  show ?case
  proof (cases x)
    case None
    with snoc u show ?thesis by (simp add: run_refs_snoc refs_on_page_snoc)
  next
    case (Some r)
    show ?thesis
    proof (cases "resolvePage mp r")
      case None
      with Some snoc u show ?thesis by (simp add: run_refs_snoc refs_on_page_snoc)
    next
      case (Some q)
      then have q: "mp (refIndex r) = Some q" "q \<noteq> 0" by (simp_all add: resolvePage_Some_iff)
      have n: "nextNumber (entry_of ?st q) = Suc (length (refs_on_page mp q rs))"
        using entry_numbering[of mp defs rs q] by simp
      show ?thesis using snoc u \<open>x = Some r\<close> Some q n
        by (auto simp: run_refs_snoc refs_on_page_snoc)
    qed
  qed
qed


lemma copy_item_simps [simp]:
  "numbers (copy_item it) = numbers it"
  "targetId (copy_item it) = targetId it"
  "targetIds (copy_item it) = targetIds it"
  "destName (copy_item it) = destName it"
  "segments (copy_item it) = cloneFootnoteSegments (segments it)"
  by (simp_all add: copy_item_def)

lemma out_pages_elem:
  assumes "pp \<in> set (out_pages (buildFootnotePagePlan rs mp defs))"
  shows "refs_on_page mp (plan_page pp) rs \<noteq> [] \<and>
         plan_items pp = map copy_item (items (entry_of (run_refs mp defs rs) (plan_page pp)))"
proof -
  let ?st = "run_refs mp defs rs"
  from assms obtain p where p: "p \<in> fst ` set (pages ?st)"
    and pp: "pp = \<lparr>plan_page = p, plan_items = map copy_item (items (the (map_of (pages ?st) p)))\<rparr>"
    by (auto simp: buildFootnotePagePlan_def orderedPages_def Let_def)
  from p obtain e where e: "map_of (pages ?st) p = Some e"
    by (metis domD dom_map_of_conv_image_fst)
  from p have "refs_on_page mp p rs \<noteq> []" by (simp add: pages_keys)
  with e pp show ?thesis by (simp add: entry_of_def)
qed

lemma out_pages_pages:
  "plan_page ` set (out_pages (buildFootnotePagePlan rs mp defs)) = {p. refs_on_page mp p rs \<noteq> []}"
  by (simp add: buildFootnotePagePlan_def orderedPages_def Let_def image_image pages_keys)

text \<open>
  Claim C1. In the plan that \<open>buildFootnotePagePlan\<close> returns, for every list of
  references and every marker map: the numbers of the items of a page, read item after
  item, are \<open>1, ..., N\<close>, where \<open>N\<close> is the number of references resolved to that page;
  every page with a resolved reference has a plan; the numbers in the reference updates of
  one page are \<open>1, ..., N\<close> in the order of the references; and the updates follow the
  order of the resolved references.
\<close>

theorem plan_numbers_are_1_to_N:
  "(\<forall>pp \<in> set (out_pages (buildFootnotePagePlan rs mp defs)).
      concat (map numbers (plan_items pp)) = [1..<Suc (length (refs_on_page mp (plan_page pp) rs))]) \<and>
   (\<forall>p. refs_on_page mp p rs \<noteq> [] \<longrightarrow>
      (\<exists>pp \<in> set (out_pages (buildFootnotePagePlan rs mp defs)). plan_page pp = p)) \<and>
   (\<forall>p. 0 < p \<longrightarrow>
      map newNumber [u \<leftarrow> out_refUpdates (buildFootnotePagePlan rs mp defs).
                       mp (upd_refIndex u) = Some p] =
        [1..<Suc (length (refs_on_page mp p rs))]) \<and>
   map upd_refIndex (out_refUpdates (buildFootnotePagePlan rs mp defs)) =
     map refIndex [r \<leftarrow> valid_refs rs. resolvePage mp r \<noteq> None]"
proof (intro conjI ballI allI impI)
  fix pp assume "pp \<in> set (out_pages (buildFootnotePagePlan rs mp defs))"
  from out_pages_elem[OF this] entry_numbering[of mp defs rs "plan_page pp"]
  show "concat (map numbers (plan_items pp)) = [1..<Suc (length (refs_on_page mp (plan_page pp) rs))]"
    by (simp add: numbering_inv_def map_map comp_def)
next
  fix p assume "refs_on_page mp p rs \<noteq> []"
  then have "p \<in> plan_page ` set (out_pages (buildFootnotePagePlan rs mp defs))"
    by (simp add: out_pages_pages)
  then show "\<exists>pp \<in> set (out_pages (buildFootnotePagePlan rs mp defs)). plan_page pp = p" by auto
next
  fix p :: nat assume "0 < p"
  then show "map newNumber [u \<leftarrow> out_refUpdates (buildFootnotePagePlan rs mp defs).
                       mp (upd_refIndex u) = Some p] =
        [1..<Suc (length (refs_on_page mp p rs))]"
    using refUpdates_run[of mp defs rs] by (simp add: buildFootnotePagePlan_def Let_def)
next
  show "map upd_refIndex (out_refUpdates (buildFootnotePagePlan rs mp defs)) =
     map refIndex [r \<leftarrow> valid_refs rs. resolvePage mp r \<noteq> None]"
    using refUpdates_run[of mp defs rs] by (simp add: buildFootnotePagePlan_def Let_def)
qed

theorem plan_numbers_are_1_to_N_witness:
  "refs_on_page [0 \<mapsto> 1, 1 \<mapsto> 1] 1
      [Some \<lparr>refIndex = 0, ref_targetId = ''fn1''\<rparr>, Some \<lparr>refIndex = 1, ref_targetId = ''fn2''\<rparr>] \<noteq> [] \<and>
   (\<exists>pp \<in> set (out_pages (buildFootnotePagePlan
        [Some \<lparr>refIndex = 0, ref_targetId = ''fn1''\<rparr>, Some \<lparr>refIndex = 1, ref_targetId = ''fn2''\<rparr>]
        [0 \<mapsto> 1, 1 \<mapsto> 1] Map.empty)).
      plan_page pp = 1 \<and> concat (map numbers (plan_items pp)) = [1, 2]) \<and>
   map newNumber [u \<leftarrow> out_refUpdates (buildFootnotePagePlan
        [Some \<lparr>refIndex = 0, ref_targetId = ''fn1''\<rparr>, Some \<lparr>refIndex = 1, ref_targetId = ''fn2''\<rparr>]
        [0 \<mapsto> 1, 1 \<mapsto> 1] Map.empty). [0 \<mapsto> 1, 1 \<mapsto> 1] (upd_refIndex u) = Some (1::nat)] = [1, 2]"
proof -
  let ?rs = "[Some \<lparr>refIndex = 0, ref_targetId = ''fn1''\<rparr>, Some \<lparr>refIndex = 1, ref_targetId = ''fn2''\<rparr>]"
  let ?mp = "[0 \<mapsto> 1, 1 \<mapsto> (1::nat)] :: nat \<rightharpoonup> nat"
  let ?plan = "buildFootnotePagePlan ?rs ?mp Map.empty"
  have n: "refs_on_page ?mp 1 ?rs =
      [\<lparr>refIndex = 0, ref_targetId = ''fn1''\<rparr>, \<lparr>refIndex = 1, ref_targetId = ''fn2''\<rparr>]"
    by (simp add: refs_on_page_def resolvePage_def)
  have u: "[1..<Suc (length (refs_on_page ?mp 1 ?rs))] = [1, 2]"
    unfolding n by (simp add: upt_rec)
  note inst = plan_numbers_are_1_to_N[of ?rs ?mp Map.empty]
  from inst have a: "\<forall>pp \<in> set (out_pages ?plan).
      concat (map numbers (plan_items pp)) = [1..<Suc (length (refs_on_page ?mp (plan_page pp) ?rs))]"
    by (rule conjunct1)
  from inst have b: "\<forall>p. refs_on_page ?mp p ?rs \<noteq> [] \<longrightarrow> (\<exists>pp \<in> set (out_pages ?plan). plan_page pp = p)"
    by (elim conjE)
  from inst have c: "\<forall>p. 0 < p \<longrightarrow> map newNumber [u \<leftarrow> out_refUpdates ?plan. ?mp (upd_refIndex u) = Some p] =
        [1..<Suc (length (refs_on_page ?mp p ?rs))]"
    by (elim conjE)
  from n have ne: "refs_on_page ?mp 1 ?rs \<noteq> []" by simp
  from b ne obtain pp where pp: "pp \<in> set (out_pages ?plan)" "plan_page pp = 1" by blast
  from a pp have "concat (map numbers (plan_items pp)) = [1, 2]" using u by metis
  moreover from c have "map newNumber [u \<leftarrow> out_refUpdates ?plan. ?mp (upd_refIndex u) = Some (1::nat)] = [1, 2]"
    using u by (metis zero_less_one)
  ultimately show ?thesis using pp ne by blast
qed
lemma grp_Inr_iff: "grp defs u = Inr t \<longleftrightarrow> definitionGroupKey defs u = None \<and> u = t"
  by (simp add: grp_def split: option.split)

lemma grp_Inl_iff: "grp defs u = Inl k \<longleftrightarrow> definitionGroupKey defs u = Some k"
  by (simp add: grp_def split: option.split)


text \<open>What place_ref does, in one statement for both branches.\<close>

lemma place_ref_cases:
  assumes "place_ref defs c e t = (e', c', idx)"
  obtains (new)
      "reusable_item e t (definitionGroupKey defs t) (nextNumber e) = None"
      "idx = length (items e)" "c' = Suc c"
      "items e' = items e @ [record_number (nextNumber e)
                  (new_item t (make_destName (Suc c) t (nextNumber e)) (segments_for defs t))]"
    | (reuse)
      "reusable_item e t (definitionGroupKey defs t) (nextNumber e) = Some idx"
      "idx < length (items e)" "c' = c"
      "items e' = (items e)[idx := record_number (nextNumber e) (add_targetId t (items e ! idx))]"
proof (cases "reusable_item e t (definitionGroupKey defs t) (nextNumber e)")
  case None
  with assms place_ref_new[OF None, of c] show ?thesis by (intro new) auto
next
  case (Some i)
  with assms place_ref_reuse[OF Some, of c] reusable_item_SomeD(1)[OF Some]
  show ?thesis by (intro reuse) auto
qed

lemma place_ref_maps:
  assumes "place_ref defs c e t = (e', c', idx)"
  shows "byTargetId e' = (byTargetId e)(t \<mapsto> idx)"
    and "byDefinitionKey e' = (case definitionGroupKey defs t of None \<Rightarrow> byDefinitionKey e
               | Some k \<Rightarrow> (byDefinitionKey e)(k \<mapsto> idx))"
    and "page e' = page e"
  using assms
  by (cases "reusable_item e t (definitionGroupKey defs t) (nextNumber e)";
      auto simp: place_ref_new place_ref_reuse)+

lemma place_ref_targetId_old:
  assumes "place_ref defs c e t = (e', c', idx)" and "i < length (items e)"
  shows "targetId (items e' ! i) = targetId (items e ! i)"
  using assms(1)
proof (cases rule: place_ref_cases)
  case new
  with assms(2) show ?thesis by (simp add: nth_append)
next
  case reuse
  with assms(2) show ?thesis by (cases "i = idx") simp_all
qed

lemma place_ref_length:
  assumes "place_ref defs c e t = (e', c', idx)"
  shows "length (items e) \<le> length (items e')" and "idx < length (items e')"
  using assms by (cases rule: place_ref_cases; simp)+

lemma place_ref_item_grp:
  assumes "lookup_inv defs e" and "place_ref defs c e t = (e', c', idx)"
  shows "grp defs (targetId (items e' ! idx)) = grp defs t"
  using assms(2)
proof (cases rule: place_ref_cases)
  case new
  then show ?thesis by simp
next
  case reuse
  from reusable_item_SomeD(3)[OF reuse(1)] assms(1) reuse(2)
  have "grp defs (targetId (items e ! idx)) = grp defs t"
    by (auto simp: lookup_inv_def grp_Inl_iff[symmetric])
  with reuse show ?thesis by simp
qed

lemma place_ref_lookup:
  assumes inv: "lookup_inv defs e" and pl: "place_ref defs c e t = (e', c', idx)"
  shows "lookup_inv defs e'"
proof -
  note g = place_ref_item_grp[OF inv pl]
  note len = place_ref_length[OF pl]
  note old = place_ref_targetId_old[OF pl]
  have a: "i < length (items e') \<and> grp defs (targetId (items e' ! i)) = grp defs u"
    if "byTargetId e' u = Some i" for u i
  proof (cases "u = t")
    case True
    with that have "i = idx" by (simp add: place_ref_maps(1)[OF pl])
    with g len True show ?thesis by simp
  next
    case False
    with that have "byTargetId e u = Some i" by (simp add: place_ref_maps(1)[OF pl])
    with inv have "i < length (items e)" "grp defs (targetId (items e ! i)) = grp defs u"
      by (auto simp: lookup_inv_def)
    with len old[of i] show ?thesis by simp
  qed
  have b: "i < length (items e') \<and> grp defs (targetId (items e' ! i)) = Inl k"
    if "byDefinitionKey e' k = Some i" for k i
  proof (cases "definitionGroupKey defs t = Some k")
    case True
    with that have "i = idx" by (simp add: place_ref_maps(2)[OF pl])
    with g len True show ?thesis by (simp add: grp_Inl_iff)
  next
    case False
    with that have "byDefinitionKey e k = Some i"
      by (auto simp: place_ref_maps(2)[OF pl] split: option.splits if_splits)
    with inv have "i < length (items e)" "grp defs (targetId (items e ! i)) = Inl k"
      by (auto simp: lookup_inv_def)
    with len old[of i] show ?thesis by simp
  qed
  from a b show ?thesis unfolding lookup_inv_def by blast
qed

lemma place_ref_items_inv:
  assumes inv: "items_inv defs e" and pl: "place_ref defs c e t = (e', c', idx)"
  shows "items_inv defs e'"
  using pl
proof (cases rule: place_ref_cases)
  case new
  with inv show ?thesis by (auto simp: items_inv_def dest_ok_make_destName)
next
  case reuse
  have "it \<in> set (items e') \<Longrightarrow>
        segments it = segments_for defs (targetId it) \<and> dest_ok (destName it)" for it
  proof -
    assume "it \<in> set (items e')"
    then have "it \<in> insert (record_number (nextNumber e) (add_targetId t (items e ! idx))) (set (items e))"
      unfolding reuse(4) using set_update_subset_insert by fastforce
    moreover have "items e ! idx \<in> set (items e)" using reuse(2) by simp
    ultimately show ?thesis using inv by (auto simp: items_inv_def)
  qed
  then show ?thesis unfolding items_inv_def by blast
qed

lemma place_ref_entry_inv:
  assumes "entry_inv defs e" and "place_ref defs c e t = (e', c', idx)"
  shows "entry_inv defs e'"
proof -
  from assms(1) have n: "numbering_inv e" and l: "lookup_inv defs e" and i: "items_inv defs e"
    by (simp_all add: entry_inv_def)
  show ?thesis unfolding entry_inv_def
    using place_ref_numbering(1)[OF n assms(2)] place_ref_lookup[OF l assms(2)]
      place_ref_items_inv[OF i assms(2)] by simp
qed

lemma entry_inv_new_entry: "entry_inv defs (new_entry p)"
  by (simp add: entry_inv_def numbering_inv_new_entry)
     (simp add: lookup_inv_def items_inv_def new_entry_def)

lemma entry_inv_run: "entry_inv defs (entry_of (run_refs mp defs rs) p)"
proof (induction rs rule: rev_induct)
  case Nil
  show ?case by (simp add: entry_inv_new_entry)
next
  case (snoc x rs)
  let ?st = "run_refs mp defs rs"
  show ?case
  proof (cases "\<exists>r. x = Some r \<and> resolvePage mp r = Some p")
    case False
    then show ?thesis using snoc
      by (auto simp: run_refs_snoc entry_of_processRef split: option.splits)
  next
    case True
    then obtain r where x: "x = Some r" and r: "resolvePage mp r = Some p" by blast
    obtain e' c' idx where pl:
      "place_ref defs (destinationCounter ?st) (entry_of ?st p) (ref_targetId r) = (e', c', idx)"
      by (cases "place_ref defs (destinationCounter ?st) (entry_of ?st p) (ref_targetId r)")
    show ?thesis using place_ref_entry_inv[OF snoc pl]
      by (simp add: run_refs_snoc entry_of_processRef x r pl)
  qed
qed




lemma item_ext_refl [simp]: "item_ext it it"
  by (simp add: item_ext_def)

lemma item_ext_trans: "item_ext a b \<Longrightarrow> item_ext b c \<Longrightarrow> item_ext a c"
  by (auto simp: item_ext_def)

lemma entry_ext_refl [simp]: "entry_ext e e"
  by (simp add: entry_ext_def)

lemma entry_ext_trans: "entry_ext a b \<Longrightarrow> entry_ext b c \<Longrightarrow> entry_ext a c"
  unfolding entry_ext_def by (meson item_ext_trans le_trans less_le_trans)

lemma place_ref_ext:
  assumes "place_ref defs c e t = (e', c', idx)"
  shows "entry_ext e e'"
  using assms
proof (cases rule: place_ref_cases)
  case new
  then show ?thesis by (simp add: entry_ext_def nth_append)
next
  case reuse
  have "item_ext (items e ! i) (items e' ! i)" if "i < length (items e)" for i
    using that reuse by (cases "i = idx") (auto simp: item_ext_def)
  with reuse show ?thesis by (simp add: entry_ext_def)
qed

lemma place_ref_item:
  assumes "place_ref defs c e t = (e', c', idx)"
  shows "nextNumber e \<in> set (numbers (items e' ! idx))"
    and "t \<in> set (targetIds (items e' ! idx))"
  using assms by (cases rule: place_ref_cases; simp)+

lemma processRef_ext: "entry_ext (entry_of st p) (entry_of (processRef mp defs st x) p)"
proof (cases "\<exists>r. x = Some r \<and> resolvePage mp r = Some p")
  case False
  then show ?thesis by (auto simp: entry_of_processRef split: option.splits)
next
  case True
  then obtain r where x: "x = Some r" and r: "resolvePage mp r = Some p" by blast
  obtain e' c' idx where pl:
    "place_ref defs (destinationCounter st) (entry_of st p) (ref_targetId r) = (e', c', idx)"
    by (cases "place_ref defs (destinationCounter st) (entry_of st p) (ref_targetId r)")
  show ?thesis using place_ref_ext[OF pl] by (simp add: entry_of_processRef x r pl)
qed

lemma foldl_processRef_ext:
  "entry_ext (entry_of st p) (entry_of (foldl (processRef mp defs) st xs) p)"
proof (induction xs arbitrary: st)
  case Nil
  show ?case by simp
next
  case (Cons x xs)
  show ?case using entry_ext_trans[OF processRef_ext Cons] by simp
qed


lemma clone_placeholder: "cloneFootnoteSegments placeholder = placeholder"
  by code_simp

lemma segments_for_no_definition:
  "\<not> hasDefinition defs t \<Longrightarrow> segments_for defs t = placeholder"
  by (auto simp: hasDefinition_def segments_for_def split: option.splits)

lemma grp_no_definition: "\<not> hasDefinition defs t \<Longrightarrow> grp defs u = grp defs t \<longleftrightarrow> u = t"
  by (auto simp: grp_def definitionGroupKey_def split: option.splits if_splits)

text \<open>The item that takes a reference without a definition has the placeholder body.\<close>

lemma place_ref_placeholder:
  assumes inv: "entry_inv defs e" and pl: "place_ref defs c e t = (e', c', idx)"
    and nodef: "\<not> hasDefinition defs t"
  shows "segments (items e' ! idx) = placeholder"
proof -
  from inv have l: "lookup_inv defs e" by (simp add: entry_inv_def)
  from place_ref_item_grp[OF l pl] nodef have t: "targetId (items e' ! idx) = t"
    by (simp add: grp_no_definition)
  from place_ref_entry_inv[OF inv pl] have "items_inv defs e'" by (simp add: entry_inv_def)
  moreover have "items e' ! idx \<in> set (items e')" using place_ref_length(2)[OF pl] by simp
  ultimately have "segments (items e' ! idx) = segments_for defs (targetId (items e' ! idx))"
    by (simp add: items_inv_def)
  with t nodef show ?thesis by (simp add: segments_for_no_definition)
qed

lemma placeholder_in_plan:
  assumes r: "resolvePage mp r = Some p" and nodef: "\<not> hasDefinition defs (ref_targetId r)"
  shows "\<exists>pp \<in> set (out_pages (buildFootnotePagePlan (pre @ [Some r] @ post) mp defs)).
           plan_page pp = p \<and>
           (\<exists>it \<in> set (plan_items pp).
              Suc (length (refs_on_page mp p pre)) \<in> set (numbers it) \<and>
              ref_targetId r \<in> set (targetIds it) \<and> segments it = placeholder)"
proof -
  let ?rs = "pre @ [Some r] @ post"
  let ?before = "run_refs mp defs pre"
  let ?after = "run_refs mp defs (pre @ [Some r])"
  let ?ent = "entry_of ?before p"
  obtain e1 c1 idx where pl:
    "place_ref defs (destinationCounter ?before) ?ent (ref_targetId r) = (e1, c1, idx)"
    by (cases "place_ref defs (destinationCounter ?before) ?ent (ref_targetId r)")
  have e1: "entry_of ?after p = e1" by (simp add: run_refs_snoc entry_of_processRef r pl)
  have n: "nextNumber ?ent = Suc (length (refs_on_page mp p pre))"
    using entry_numbering[of mp defs pre p] by simp
  have idx: "idx < length (items e1)" by (rule place_ref_length(2)[OF pl])
  have seg: "segments (items e1 ! idx) = placeholder"
    by (rule place_ref_placeholder[OF entry_inv_run pl nodef])
  let ?e = "entry_of (run_refs mp defs ?rs) p"
  have "run_refs mp defs ?rs = foldl (processRef mp defs) ?after post"
    using run_refs_append[of mp defs "pre @ [Some r]" post] by simp
  then have "entry_ext e1 ?e" using foldl_processRef_ext[of ?after p mp defs post] e1 by simp
  with idx have len: "idx < length (items ?e)" and ext: "item_ext (items e1 ! idx) (items ?e ! idx)"
    by (auto simp: entry_ext_def)
  let ?it = "copy_item (items ?e ! idx)"
  from ext place_ref_item[OF pl] n seg
  have props: "Suc (length (refs_on_page mp p pre)) \<in> set (numbers ?it)"
    "ref_targetId r \<in> set (targetIds ?it)" "segments ?it = placeholder"
    by (auto simp: item_ext_def clone_placeholder)
  have "refs_on_page mp p ?rs \<noteq> []" using r by (simp add: refs_on_page_def)
  then have "p \<in> plan_page ` set (out_pages (buildFootnotePagePlan ?rs mp defs))"
    by (simp add: out_pages_pages)
  then obtain pp where pp: "pp \<in> set (out_pages (buildFootnotePagePlan ?rs mp defs))"
    and p: "plan_page pp = p" by auto
  from out_pages_elem[OF pp] p have "plan_items pp = map copy_item (items ?e)" by simp
  with len have "?it \<in> set (plan_items pp)" by simp
  with pp p props show ?thesis by blast
qed

lemma core_processRef:
  "core st = core st' \<Longrightarrow> core (processRef mp defs st x) = core (processRef mp defs st' x)"
  by (auto simp: core_def processRef_def entry_of_def Let_def split: option.splits prod.splits)

lemma core_unresolved:
  "resolvePage mp r = None \<Longrightarrow> core (processRef mp defs st (Some r)) = core st"
  by (simp add: processRef_unresolved core_def)

lemma core_without_unresolved:
  "core (run_refs mp defs rs) = core (run_refs mp defs (without_unresolved mp rs))"
proof (induction rs rule: rev_induct)
  case Nil
  show ?case by (simp add: without_unresolved_def)
next
  case (snoc x rs)
  show ?case
  proof (cases "\<exists>r. x = Some r \<and> resolvePage mp r = None")
    case True
    then obtain r where x: "x = Some r" and r: "resolvePage mp r = None" by blast
    then have "without_unresolved mp (rs @ [x]) = without_unresolved mp rs"
      by (simp add: without_unresolved_def)
    with snoc x r core_unresolved[OF r, of defs "run_refs mp defs rs"] show ?thesis
      by (simp add: run_refs_snoc)
  next
    case False
    then have "without_unresolved mp (rs @ [x]) = without_unresolved mp rs @ [x]"
      by (cases x) (auto simp: without_unresolved_def)
    with core_processRef[OF snoc, of mp defs x] show ?thesis by (simp add: run_refs_snoc)
  qed
qed

lemma unresolvedRefs_run:
  "unresolvedRefs (run_refs mp defs rs) =
     map refIndex [r \<leftarrow> valid_refs rs. resolvePage mp r = None]"
proof (induction rs rule: rev_induct)
  case Nil
  show ?case by (simp add: initial_state_def)
next
  case (snoc x rs)
  show ?case
  proof (cases x)
    case None
    with snoc show ?thesis by (simp add: run_refs_snoc)
  next
    case (Some r)
    show ?thesis
    proof (cases "resolvePage mp r")
      case None
      with Some snoc show ?thesis by (simp add: run_refs_snoc processRef_unresolved)
    next
      case (Some p)
      obtain e' c' idx where pl:
        "place_ref defs (destinationCounter (run_refs mp defs rs))
           (entry_of (run_refs mp defs rs) p) (ref_targetId r) = (e', c', idx)"
        by (cases "place_ref defs (destinationCounter (run_refs mp defs rs))
           (entry_of (run_refs mp defs rs) p) (ref_targetId r)")
      show ?thesis using snoc \<open>x = Some r\<close> Some
        by (simp add: run_refs_snoc processRef_resolved[OF Some pl])
    qed
  qed
qed

text \<open>
  Claim C9. \<open>buildFootnotePagePlan\<close> is a total function of its three arguments: no step
  of its loop can fail. The references that the marker map does not resolve are returned
  in \<open>unresolvedRefs\<close>, in order, and the pages and the reference updates of the plan
  are those of the plan built without them. A resolved reference whose \<open>targetId\<close> has
  no definition is numbered in an item of its page whose body is the placeholder segment.
\<close>

theorem unresolved_refs_and_missing_definitions:
  "out_unresolvedRefs (buildFootnotePagePlan rs mp defs) =
     map refIndex [r \<leftarrow> valid_refs rs. resolvePage mp r = None] \<and>
   out_pages (buildFootnotePagePlan rs mp defs) =
     out_pages (buildFootnotePagePlan (without_unresolved mp rs) mp defs) \<and>
   out_refUpdates (buildFootnotePagePlan rs mp defs) =
     out_refUpdates (buildFootnotePagePlan (without_unresolved mp rs) mp defs) \<and>
   (\<forall>pre r post p.
      rs = pre @ [Some r] @ post \<and> resolvePage mp r = Some p \<and>
      \<not> hasDefinition defs (ref_targetId r) \<longrightarrow>
      (\<exists>pp \<in> set (out_pages (buildFootnotePagePlan rs mp defs)).
         plan_page pp = p \<and>
         (\<exists>it \<in> set (plan_items pp).
            Suc (length (refs_on_page mp p pre)) \<in> set (numbers it) \<and>
            ref_targetId r \<in> set (targetIds it) \<and> segments it = placeholder)))"
proof (intro conjI allI impI)
  show "out_unresolvedRefs (buildFootnotePagePlan rs mp defs) =
     map refIndex [r \<leftarrow> valid_refs rs. resolvePage mp r = None]"
    by (simp add: buildFootnotePagePlan_def Let_def unresolvedRefs_run)
next
  from core_without_unresolved[of mp defs rs]
  show "out_pages (buildFootnotePagePlan rs mp defs) =
     out_pages (buildFootnotePagePlan (without_unresolved mp rs) mp defs)"
    by (simp add: buildFootnotePagePlan_def Let_def core_def)
next
  from core_without_unresolved[of mp defs rs]
  show "out_refUpdates (buildFootnotePagePlan rs mp defs) =
     out_refUpdates (buildFootnotePagePlan (without_unresolved mp rs) mp defs)"
    by (simp add: buildFootnotePagePlan_def Let_def core_def)
next
  fix pre r post p
  assume "rs = pre @ [Some r] @ post \<and> resolvePage mp r = Some p \<and>
      \<not> hasDefinition defs (ref_targetId r)"
  then show "\<exists>pp \<in> set (out_pages (buildFootnotePagePlan rs mp defs)).
         plan_page pp = p \<and>
         (\<exists>it \<in> set (plan_items pp).
            Suc (length (refs_on_page mp p pre)) \<in> set (numbers it) \<and>
            ref_targetId r \<in> set (targetIds it) \<and> segments it = placeholder)"
    using placeholder_in_plan[of mp r p defs pre post] by blast
qed

theorem unresolved_refs_and_missing_definitions_witness:
  "resolvePage [0 \<mapsto> 1] \<lparr>refIndex = 0, ref_targetId = ''fn1''\<rparr> = Some 1 \<and>
   \<not> hasDefinition Map.empty ''fn1'' \<and>
   out_unresolvedRefs (buildFootnotePagePlan
      [Some \<lparr>refIndex = 0, ref_targetId = ''fn1''\<rparr>, Some \<lparr>refIndex = 1, ref_targetId = ''fn2''\<rparr>]
      [0 \<mapsto> 1] Map.empty) = [1] \<and>
   (\<exists>pp \<in> set (out_pages (buildFootnotePagePlan
      [Some \<lparr>refIndex = 0, ref_targetId = ''fn1''\<rparr>, Some \<lparr>refIndex = 1, ref_targetId = ''fn2''\<rparr>]
      [0 \<mapsto> 1] Map.empty)).
      plan_page pp = 1 \<and>
      (\<exists>it \<in> set (plan_items pp).
         1 \<in> set (numbers it) \<and> ''fn1'' \<in> set (targetIds it) \<and>
         segments it = [Segment ''(footnote text unavailable)'' None]))"
proof -
  let ?ra = "\<lparr>refIndex = 0, ref_targetId = ''fn1''\<rparr>"
  let ?rb = "\<lparr>refIndex = 1, ref_targetId = ''fn2''\<rparr>"
  let ?mp = "[0 \<mapsto> 1] :: nat \<rightharpoonup> nat"
  let ?defs = "Map.empty :: string \<rightharpoonup> segment list"
  note inst = unresolved_refs_and_missing_definitions[of "[Some ?ra, Some ?rb]" ?mp ?defs]
  have r: "resolvePage ?mp ?ra = Some 1" by (simp add: resolvePage_def)
  have u: "resolvePage ?mp ?rb = None" by (simp add: resolvePage_def)
  have d: "\<not> hasDefinition ?defs ''fn1''" by (simp add: hasDefinition_def)
  have n: "refs_on_page ?mp 1 [] = []" by (simp add: refs_on_page_def)
  from inst have a: "out_unresolvedRefs (buildFootnotePagePlan [Some ?ra, Some ?rb] ?mp ?defs) =
     map refIndex [r \<leftarrow> valid_refs [Some ?ra, Some ?rb]. resolvePage ?mp r = None]"
    by (rule conjunct1)
  from inst have b: "[Some ?ra, Some ?rb] = [] @ [Some ?ra] @ [Some ?rb] \<and> resolvePage ?mp ?ra = Some 1 \<and>
      \<not> hasDefinition ?defs (ref_targetId ?ra) \<longrightarrow>
      (\<exists>pp \<in> set (out_pages (buildFootnotePagePlan [Some ?ra, Some ?rb] ?mp ?defs)).
         plan_page pp = 1 \<and>
         (\<exists>it \<in> set (plan_items pp).
            Suc (length (refs_on_page ?mp 1 [])) \<in> set (numbers it) \<and>
            ref_targetId ?ra \<in> set (targetIds it) \<and> segments it = placeholder))"
    by blast
  from a r u have a': "out_unresolvedRefs (buildFootnotePagePlan [Some ?ra, Some ?rb] ?mp ?defs) = [1]"
    by simp
  from b r d n have "\<exists>pp \<in> set (out_pages (buildFootnotePagePlan [Some ?ra, Some ?rb] ?mp ?defs)).
         plan_page pp = 1 \<and>
         (\<exists>it \<in> set (plan_items pp).
            1 \<in> set (numbers it) \<and> ''fn1'' \<in> set (targetIds it) \<and>
            segments it = [Segment ''(footnote text unavailable)'' None])"
    by (simp add: placeholder_def)
  with r d a' show ?thesis by blast
qed















section \<open>Properties of the text flow layout\<close>

lemma sum_widths_nonneg:
  "list_all (\<lambda>f. 0 < frag_width f) l \<Longrightarrow> 0 \<le> sum_list (map frag_width l)"
proof (induction l)
  case Nil
  show ?case by simp
next
  case (Cons f l)
  then have "0 < frag_width f" "0 \<le> sum_list (map frag_width l)" by simp_all
  then show ?case by simp
qed

lemma sum_widths_pos:
  assumes "list_all (\<lambda>f. 0 < frag_width f) l" and "l \<noteq> []"
  shows "0 < sum_list (map frag_width l)"
proof -
  from assms(2) obtain f fs where l: "l = f # fs" by (cases l) auto
  with assms(1) have "0 < frag_width f" "0 \<le> sum_list (map frag_width fs)"
    by (simp_all add: sum_widths_nonneg)
  with l show ?thesis by simp
qed

lemma line_ok_Nil: "0 \<le> B \<Longrightarrow> line_ok widthOf B []"
  by (simp add: line_ok_def)

lemma line_ok_butlast:
  assumes "line_ok widthOf B l" and "l \<noteq> []" and "isSpace (last l)" and "0 < frag_width (last l)"
  shows "line_ok widthOf B (butlast l)"
proof -
  from assms(2) obtain xs x where l: "l = xs @ [x]" by (metis append_butlast_last_id)
  from assms(1,3) l have "sum_list (map frag_width l) \<le> B"
    by (auto simp: line_ok_def split: list.splits)
  with l assms(4) show ?thesis by (simp add: line_ok_def)
qed

lemma trimTrailingSpaces_inv:
  assumes "line_ok widthOf B l" and "w = sum_list (map frag_width l)"
    and "list_all (\<lambda>f. 0 < frag_width f) l"
  shows "line_ok widthOf B (fst (trimTrailingSpaces (l, w))) \<and>
         list_all (\<lambda>f. 0 < frag_width f) (fst (trimTrailingSpaces (l, w))) \<and>
         snd (trimTrailingSpaces (l, w)) = sum_list (map frag_width (fst (trimTrailingSpaces (l, w))))"
  using assms
proof (induction "(l, w)" arbitrary: l w rule: trimTrailingSpaces.induct)
  case (1 line w)
  show ?case
  proof (cases "line \<noteq> [] \<and> isSpace (last line)")
    case False
    then show ?thesis using 1(2-4) by (subst (1 2 3 4) trimTrailingSpaces.simps) auto
  next
    case True
    then obtain xs x where l: "line = xs @ [x]" by (metis append_butlast_last_id)
    from 1(4) l have px: "0 < frag_width x" and pxs: "list_all (\<lambda>f. 0 < frag_width f) xs"
      by simp_all
    have ok: "line_ok widthOf B (butlast line)"
      using line_ok_butlast[OF 1(2)] True px l by simp
    have "w - frag_width (last line) = sum_list (map frag_width (butlast line))"
      using 1(3) l by simp
    from "1.hyps"[OF True ok this] pxs l
    show ?thesis using True by (subst (1 2 3 4) trimTrailingSpaces.simps) simp
  qed
qed

lemma commitLine_inv:
  assumes "layout_inv widthOf B st" and "0 \<le> B"
  shows "layout_inv widthOf B (commitLine allowEmpty st)"
    and "currentLine (commitLine allowEmpty st) = []"
proof -
  from assms(1) have a: "line_ok widthOf B (currentLine st)"
    "currentWidth st = sum_list (map frag_width (currentLine st))"
    "list_all (\<lambda>f. 0 < frag_width f) (currentLine st)"
    "list_all (line_ok widthOf B) (lines st)"
    by (simp_all add: layout_inv_def)
  from trimTrailingSpaces_inv[OF a(1,2,3)]
  have "line_ok widthOf B (fst (trimTrailingSpaces (currentLine st, currentWidth st)))" by simp
  with a(4) assms(2) show "layout_inv widthOf B (commitLine allowEmpty st)"
    by (simp add: layout_inv_def commitLine_def Let_def line_ok_Nil)
  show "currentLine (commitLine allowEmpty st) = []" by (simp add: commitLine_def Let_def)
qed

text \<open>Appending keeps the invariant when the text fits: on an empty line a text within the
  budget or a single glyph, on a line with content a text that stays within the budget.\<close>

lemma appendFragment_inv:
  assumes inv: "layout_inv widthOf B st"
    and empty: "currentLine st = [] \<Longrightarrow> widthOf txt \<le> B \<or> (length txt = 1 \<and> \<not> sp)"
    and more: "currentLine st \<noteq> [] \<Longrightarrow> currentWidth st + widthOf txt \<le> B"
  shows "layout_inv widthOf B (appendFragment widthOf txt href sp st)"
proof (cases "txt = [] \<or> widthOf txt \<le> 0")
  case True
  with inv show ?thesis by (auto simp: appendFragment_def Let_def)
next
  case False
  then have w: "0 < widthOf txt" and t: "txt \<noteq> []" by auto
  from inv have a: "line_ok widthOf B (currentLine st)"
    "currentWidth st = sum_list (map frag_width (currentLine st))"
    "list_all (\<lambda>f. 0 < frag_width f) (currentLine st)"
    "list_all (line_ok widthOf B) (lines st)"
    by (simp_all add: layout_inv_def)
  show ?thesis
  proof (cases "currentLine st = []")
    case True
    with empty have "widthOf txt \<le> B \<or> (length txt = 1 \<and> \<not> sp)" by simp
    then have "line_ok widthOf B [\<lparr>frag_text = txt, frag_href = href_or_null href,
                           frag_width = widthOf txt, isSpace = sp\<rparr>]"
      by (auto simp: line_ok_def)
    with True a w t show ?thesis by (simp add: appendFragment_def Let_def layout_inv_def)
  next
    case False
    then obtain xs x where l: "currentLine st = xs @ [x]" by (metis append_butlast_last_id)
    from more False a(2) have le: "sum_list (map frag_width (currentLine st)) + widthOf txt \<le> B"
      by simp
    show ?thesis
    proof (cases "frag_href x = href_or_null href \<and> isSpace x = sp")
      case True
      with l w t a le show ?thesis
        by (simp add: appendFragment_def Let_def layout_inv_def line_ok_def)
    next
      case False
      with l w t a le show ?thesis
        by (auto simp: appendFragment_def Let_def layout_inv_def line_ok_def)
    qed
  qed
qed

lemma glyph_steps_ok:
  assumes "list_all (chunk_ok widthOf B) parts"
    and "chunk = [] \<or> chunk_ok widthOf B chunk"
    and "foldl (glyph_step widthOf B) (parts, chunk) gs = (parts', chunk')"
  shows "list_all (chunk_ok widthOf B) parts' \<and> (chunk' = [] \<or> chunk_ok widthOf B chunk')"
  using assms
proof (induction gs arbitrary: parts chunk)
  case Nil
  then show ?case by simp
next
  case (Cons g gs)
  obtain p1 c1 where s: "glyph_step widthOf B (parts, chunk) g = (p1, c1)"
    by (cases "glyph_step widthOf B (parts, chunk) g")
  from s Cons.prems(1,2) have "list_all (chunk_ok widthOf B) p1" "c1 = [] \<or> chunk_ok widthOf B c1"
    by (auto simp: glyph_step_def Let_def chunk_ok_def list_all_iff split: if_splits)
  moreover from Cons.prems(3) s have "foldl (glyph_step widthOf B) (p1, c1) gs = (parts', chunk')"
    by simp
  ultimately show ?case by (rule Cons.IH)
qed

lemma splitWordByWidth_ok: "list_all (chunk_ok widthOf B) (splitWordByWidth widthOf word B)"
proof (cases "word = []")
  case True
  then show ?thesis by (simp add: splitWordByWidth_def)
next
  case False
  obtain parts chunk where f: "foldl (glyph_step widthOf B) ([], []) word = (parts, chunk)"
    by (cases "foldl (glyph_step widthOf B) ([], []) word")
  from glyph_steps_ok[OF _ _ f] have "list_all (chunk_ok widthOf B) parts"
    "chunk = [] \<or> chunk_ok widthOf B chunk" by simp_all
  with False f show ?thesis by (auto simp: splitWordByWidth_def)
qed

lemma layout_inv_empty_iff:
  assumes "layout_inv widthOf B st"
  shows "currentLine st \<noteq> [] \<longleftrightarrow> 0 < currentWidth st"
proof
  assume "currentLine st \<noteq> []"
  with assms sum_widths_pos[of "currentLine st"] show "0 < currentWidth st"
    by (simp add: layout_inv_def)
next
  assume "0 < currentWidth st"
  with assms show "currentLine st \<noteq> []" by (auto simp: layout_inv_def)
qed

lemma place_chunks_inv:
  assumes "layout_inv widthOf B st" and "0 \<le> B" and "list_all (chunk_ok widthOf B) chunks"
  shows "layout_inv widthOf B (place_chunks widthOf B href st chunks)"
  using assms
proof (induction chunks arbitrary: st)
  case Nil
  then show ?case by simp
next
  case (Cons chunk rest)
  let ?sa = "if currentWidth st > 0 \<and> currentWidth st + widthOf chunk > B
              then commitLine False st else st"
  let ?sb = "appendFragment widthOf chunk href False ?sa"
  let ?sc = "if rest \<noteq> [] then commitLine False ?sb else ?sb"
  from Cons.prems(3) have c: "chunk_ok widthOf B chunk" and r: "list_all (chunk_ok widthOf B) rest"
    by simp_all
  have i1: "layout_inv widthOf B ?sa"
    using Cons.prems(1,2) by (simp add: commitLine_inv(1))
  have e1: "currentLine ?sa = [] \<Longrightarrow> widthOf chunk \<le> B \<or> (length chunk = 1 \<and> \<not> False)"
    using c by (auto simp: chunk_ok_def)
  have m1: "currentLine ?sa \<noteq> [] \<Longrightarrow> currentWidth ?sa + widthOf chunk \<le> B"
  proof -
    assume ne: "currentLine ?sa \<noteq> []"
    show ?thesis
    proof (cases "currentWidth st > 0 \<and> currentWidth st + widthOf chunk > B")
      case True
      with ne commitLine_inv(2)[OF Cons.prems(1,2), of False] show ?thesis by simp
    next
      case False
      with ne layout_inv_empty_iff[OF Cons.prems(1)] show ?thesis by auto
    qed
  qed
  have i2: "layout_inv widthOf B ?sb" by (rule appendFragment_inv[OF i1 e1 m1])
  have i3: "layout_inv widthOf B ?sc" using i2 Cons.prems(2) by (simp add: commitLine_inv(1))
  from Cons.IH[OF i3 Cons.prems(2) r] show ?case by (simp add: Let_def)
qed

lemma place_token_inv:
  assumes inv: "layout_inv widthOf B st" and B: "0 \<le> B"
  shows "layout_inv widthOf B (place_token widthOf B href st tok)"
proof (cases tok)
  case NewlineToken
  with inv B show ?thesis by (simp add: place_token_def commitLine_inv(1))
next
  case SpaceToken
  show ?thesis
  proof (cases "currentWidth st \<le> 0")
    case True
    with SpaceToken inv show ?thesis by (simp add: place_token_def)
  next
    case False
    then have ne: "currentLine st \<noteq> []" using layout_inv_empty_iff[OF inv] by simp
    show ?thesis
    proof (cases "currentWidth st + widthOf '' '' > B")
      case True
      with SpaceToken False inv B show ?thesis
        by (simp add: place_token_def Let_def commitLine_inv(1))
    next
      case False
      then have "layout_inv widthOf B (appendFragment widthOf '' '' href True st)"
        using ne by (intro appendFragment_inv[OF inv]) simp_all
      with SpaceToken False \<open>\<not> currentWidth st \<le> 0\<close> show ?thesis
        by (simp add: place_token_def Let_def)
    qed
  qed
next
  case (TextToken t)
  show ?thesis
  proof (cases "t = []")
    case True
    with TextToken inv show ?thesis by (simp add: place_token_def)
  next
    case False
    show ?thesis
    proof (cases "widthOf t > B")
      case True
      with TextToken False show ?thesis
        using place_chunks_inv[OF inv B splitWordByWidth_ok]
        by (simp add: place_token_def Let_def)
    next
      case fits: False
      show ?thesis
      proof (cases "currentWidth st > 0 \<and> currentWidth st + widthOf t > B")
        case True
        have "layout_inv widthOf B (appendFragment widthOf t href False (commitLine False st))"
          using fits commitLine_inv[OF inv B, of False]
          by (intro appendFragment_inv) simp_all
        with TextToken False fits True show ?thesis by (simp add: place_token_def Let_def)
      next
        case no: False
        have "layout_inv widthOf B (appendFragment widthOf t href False st)"
        proof (rule appendFragment_inv[OF inv])
          show "widthOf t \<le> B \<or> (length t = 1 \<and> \<not> False)" using fits by simp
          show "currentLine st \<noteq> [] \<Longrightarrow> currentWidth st + widthOf t \<le> B"
            using no layout_inv_empty_iff[OF inv] by auto
        qed
        with TextToken False fits no show ?thesis by (auto simp: place_token_def Let_def)
      qed
    qed
  qed
qed

lemma foldl_place_token_inv:
  "layout_inv widthOf B st \<Longrightarrow> 0 \<le> B \<Longrightarrow>
     layout_inv widthOf B (foldl (place_token widthOf B href) st toks)"
  by (induction toks arbitrary: st) (simp_all add: place_token_inv)

lemma foldl_place_segment_inv:
  "layout_inv widthOf B st \<Longrightarrow> 0 \<le> B \<Longrightarrow>
     layout_inv widthOf B (foldl (place_segment widthOf B) st segs)"
  by (induction segs arbitrary: st) (simp_all add: place_segment_def foldl_place_token_inv)

lemma layout_lines_ok:
  assumes "0 \<le> B"
  shows "list_all (line_ok widthOf B) (layoutFootnoteSegments segs B widthOf)"
proof -
  let ?init = "\<lparr>lines = [], currentLine = [], currentWidth = 0\<rparr>"
  let ?st = "foldl (place_segment widthOf B) ?init segs"
  have "layout_inv widthOf B ?init" using assms by (simp add: layout_inv_def line_ok_Nil)
  then have inv: "layout_inv widthOf B ?st" using assms by (rule foldl_place_segment_inv)
  then have a: "line_ok widthOf B (currentLine ?st)"
    "currentWidth ?st = sum_list (map frag_width (currentLine ?st))"
    "list_all (\<lambda>f. 0 < frag_width f) (currentLine ?st)"
    "list_all (line_ok widthOf B) (lines ?st)"
    by (simp_all add: layout_inv_def)
  from trimTrailingSpaces_inv[OF a(1,2,3)]
  have "line_ok widthOf B (fst (trimTrailingSpaces (currentLine ?st, currentWidth ?st)))" by simp
  with a(4) assms show ?thesis
    by (simp add: layoutFootnoteSegments_def Let_def line_ok_Nil)
qed

text \<open>
  Claim C6. For every list of segments, every font width function and every positive
  budget, each line of \<open>layoutFootnoteSegments\<close> has a sum of fragment widths within the
  budget, or it is a single fragment that is a single glyph, not a space, wider than the
  budget by itself.
\<close>

theorem layout_lines_within_budget:
  "0 < maxWidthPt \<Longrightarrow>
   \<forall>line \<in> set (layoutFootnoteSegments segs maxWidthPt widthOf).
     sum_list (map frag_width line) \<le> maxWidthPt \<or>
     (\<exists>f. line = [f] \<and> \<not> isSpace f \<and> length (frag_text f) = 1 \<and>
          frag_width f = widthOf (frag_text f) \<and> maxWidthPt < widthOf (frag_text f))"
proof
  fix line
  assume B: "0 < maxWidthPt" and l: "line \<in> set (layoutFootnoteSegments segs maxWidthPt widthOf)"
  from B have "0 \<le> maxWidthPt" by simp
  from layout_lines_ok[OF this, of widthOf segs] l have "line_ok widthOf maxWidthPt line"
    by (simp add: list_all_iff)
  then show "sum_list (map frag_width line) \<le> maxWidthPt \<or>
     (\<exists>f. line = [f] \<and> \<not> isSpace f \<and> length (frag_text f) = 1 \<and>
          frag_width f = widthOf (frag_text f) \<and> maxWidthPt < widthOf (frag_text f))"
    by (auto simp: line_ok_def split: list.splits)
qed

theorem layout_lines_within_budget_witness:
  "(0::real) < 3 \<and>
   map (map frag_width) (layoutFootnoteSegments [Segment ''ab WW c'' None] 3
      (\<lambda>s. real (length s) + 3 * real (length (filter (\<lambda>c. c = CHR ''W'') s)))) =
     [[2], [4], [4], [1]] \<and>
   (\<exists>line \<in> set (layoutFootnoteSegments [Segment ''ab WW c'' None] 3
      (\<lambda>s. real (length s) + 3 * real (length (filter (\<lambda>c. c = CHR ''W'') s)))).
      \<exists>f. line = [f] \<and> \<not> isSpace f \<and> length (frag_text f) = 1 \<and> 3 < frag_width f)"
proof -
  let ?w = "\<lambda>s. real (length s) + 3 * real (length (filter (\<lambda>c. c = CHR ''W'') s))"
  let ?ls = "layoutFootnoteSegments [Segment ''ab WW c'' None] 3 ?w"
  have ev: "map (map frag_width) ?ls = [[2], [4], [4], [1]]" by code_simp
  then obtain a b c d where ls: "?ls = [a, b, c, d]" and b: "map frag_width b = [4]"
    by (auto simp: map_eq_Cons_conv)
  from b have s: "sum_list (map frag_width b) = 4" by simp
  have "b \<in> set ?ls" by (simp add: ls)
  with layout_lines_within_budget[of 3 "[Segment ''ab WW c'' None]" ?w]
  have "sum_list (map frag_width b) \<le> 3 \<or>
     (\<exists>f. b = [f] \<and> \<not> isSpace f \<and> length (frag_text f) = 1 \<and>
          frag_width f = ?w (frag_text f) \<and> 3 < ?w (frag_text f))"
    by simp
  with s have "\<exists>f. b = [f] \<and> \<not> isSpace f \<and> length (frag_text f) = 1 \<and> 3 < frag_width f"
    by auto
  with \<open>b \<in> set ?ls\<close> ev show ?thesis by auto
qed

lemma strip_ws_append [simp]: "strip_ws (a @ b) = strip_ws a @ strip_ws b"
  by (simp add: strip_ws_def)

lemma strip_ws_Nil [simp]: "strip_ws [] = []"
  by (simp add: strip_ws_def)























section \<open>Properties of the page offset vote\<close>

lemma tally_deltas:
  "tally cp pp indices = foldl bump [] (resolved_deltas cp pp indices)"
proof -
  have "foldl (tally_step cp pp) acc indices = foldl bump acc (resolved_deltas cp pp indices)" for acc
    by (induction indices arbitrary: acc)
       (auto simp: resolved_deltas_def tally_step_def split: option.splits)
  then show ?thesis by (simp add: tally_def)
qed

lemma firsts_snoc: "firsts (ds @ [d]) = (if d \<in> set ds then firsts ds else firsts ds @ [d])"
  by (simp add: firsts_def)

lemma set_firsts [simp]: "set (firsts ds) = set ds"
  by (simp add: firsts_def)

lemma distinct_firsts [simp]: "distinct (firsts ds)"
  by (simp add: firsts_def)

lemma counts_of_deltas:
  "map fst (foldl bump [] ds) = firsts ds \<and>
   map_of (foldl bump [] ds) = (\<lambda>d. if d \<in> set ds then Some (count_list ds d) else None)"
proof (induction ds rule: rev_induct)
  case Nil
  show ?case by (simp add: firsts_def)
next
  case (snoc d ds)
  let ?al = "foldl bump [] ds"
  from snoc have k: "map fst ?al = firsts ds"
    and m: "map_of ?al = (\<lambda>d. if d \<in> set ds then Some (count_list ds d) else None)" by simp_all
  have keys: "fst ` set ?al = set ds" using k by (metis set_firsts set_map)
  have "map fst (bump ?al d) = firsts (ds @ [d])"
    by (simp add: bump_def update_keys k keys firsts_snoc)
  moreover have "map_of (bump ?al d) =
      (\<lambda>x. if x \<in> set (ds @ [d]) then Some (count_list (ds @ [d]) x) else None)"
    by (auto simp: bump_def update_conv' m fun_eq_iff)
  ultimately show ?case by simp
qed

lemma counts_entry:
  assumes "(d, c) \<in> set (foldl bump [] ds)"
  shows "d \<in> set ds" and "c = count_list ds d"
proof -
  have "distinct (map fst (foldl bump [] ds))" using counts_of_deltas[of ds] by simp
  with assms have "map_of (foldl bump [] ds) d = Some c" by simp
  then have "d \<in> set ds \<and> c = count_list ds d"
    using counts_of_deltas[of ds] by (simp split: if_splits)
  then show "d \<in> set ds" "c = count_list ds d" by simp_all
qed

lemma vote_result:
  assumes "foldl vote_step st counts = (r, t)"
  shows "((r, t) = st \<and> (\<forall>x \<in> set counts. snd x \<le> snd st)) \<or>
         (\<exists>A B. counts = A @ (r, t) # B \<and> (\<forall>x \<in> set A. snd x < t) \<and>
                (\<forall>x \<in> set B. snd x \<le> t) \<and> snd st < t)"
  using assms
proof (induction counts arbitrary: st)
  case Nil
  then show ?case by simp
next
  case (Cons x xs)
  let ?next = "vote_step st x"
  from Cons.prems have f: "foldl vote_step ?next xs = (r, t)" by simp
  note ih = Cons.IH[OF f]
  show ?case
  proof (cases "snd x > snd st")
    case True
    then have n: "?next = x" by (simp add: vote_step_def)
    from ih show ?thesis
    proof
      assume "(r, t) = ?next \<and> (\<forall>y \<in> set xs. snd y \<le> snd ?next)"
      with n True have "x # xs = [] @ (r, t) # xs \<and> (\<forall>y \<in> set xs. snd y \<le> t) \<and> snd st < t"
        by (metis append_Nil snd_conv)
      then show ?thesis by (intro disjI2 exI[of _ "[]"] exI[of _ xs]) simp
    next
      assume "\<exists>A B. xs = A @ (r, t) # B \<and> (\<forall>y \<in> set A. snd y < t) \<and>
                (\<forall>y \<in> set B. snd y \<le> t) \<and> snd ?next < t"
      then obtain A B where ab: "xs = A @ (r, t) # B" "\<forall>y \<in> set A. snd y < t"
        "\<forall>y \<in> set B. snd y \<le> t" "snd ?next < t" by blast
      with n True have "x # xs = (x # A) @ (r, t) # B \<and> (\<forall>y \<in> set (x # A). snd y < t) \<and>
          (\<forall>y \<in> set B. snd y \<le> t) \<and> snd st < t" by auto
      then show ?thesis by blast
    qed
  next
    case False
    then have n: "?next = st" by (simp add: vote_step_def)
    from ih show ?thesis
    proof
      assume "(r, t) = ?next \<and> (\<forall>y \<in> set xs. snd y \<le> snd ?next)"
      with n False show ?thesis by auto
    next
      assume "\<exists>A B. xs = A @ (r, t) # B \<and> (\<forall>y \<in> set A. snd y < t) \<and>
                (\<forall>y \<in> set B. snd y \<le> t) \<and> snd ?next < t"
      then obtain A B where ab: "xs = A @ (r, t) # B" "\<forall>y \<in> set A. snd y < t"
        "\<forall>y \<in> set B. snd y \<le> t" "snd ?next < t" by blast
      with n False have "x # xs = (x # A) @ (r, t) # B \<and> (\<forall>y \<in> set (x # A). snd y < t) \<and>
          (\<forall>y \<in> set B. snd y \<le> t) \<and> snd st < t" by auto
      then show ?thesis by blast
    qed
  qed
qed

lemma firsts_before:
  "firsts ds = K1 @ r # K2 \<Longrightarrow> set (takeWhile (\<lambda>d. d \<noteq> r) ds) \<subseteq> set K1"
proof (induction ds arbitrary: K2 rule: rev_induct)
  case Nil
  then show ?case by (simp add: firsts_def)
next
  case (snoc d ds)
  show ?case
  proof (cases "d \<in> set ds")
    case True
    with snoc.prems have f: "firsts ds = K1 @ r # K2" by (simp add: firsts_snoc)
    then have "r \<in> set ds" by (metis in_set_conv_decomp set_firsts)
    then have "takeWhile (\<lambda>d. d \<noteq> r) (ds @ [d]) = takeWhile (\<lambda>d. d \<noteq> r) ds"
      by (simp add: takeWhile_append1)
    with snoc.IH[OF f] show ?thesis by simp
  next
    case False
    with snoc.prems have f: "firsts ds @ [d] = K1 @ r # K2" by (simp add: firsts_snoc)
    show ?thesis
    proof (cases "K2 = []")
      case True
      with f have r: "r = d" and k: "K1 = firsts ds" by simp_all
      from False r have "takeWhile (\<lambda>d. d \<noteq> r) (ds @ [d]) = ds"
        by (subst takeWhile_append2) auto
      with k show ?thesis by simp
    next
      case ne: False
      then obtain K2' x where k2: "K2 = K2' @ [x]" by (metis append_butlast_last_id)
      with f have g: "firsts ds = K1 @ r # K2'" by simp
      then have "r \<in> set ds" by (metis in_set_conv_decomp set_firsts)
      then have "takeWhile (\<lambda>d. d \<noteq> r) (ds @ [d]) = takeWhile (\<lambda>d. d \<noteq> r) ds"
        by (simp add: takeWhile_append1)
      with snoc.IH[OF g] show ?thesis by simp
    qed
  qed
qed

lemma select_offset_first_most_frequent:
  "first_most_frequent ds initial (select_offset initial (foldl bump [] ds))"
proof (cases "ds = []")
  case True
  then show ?thesis by (simp add: first_most_frequent_def select_offset_def)
next
  case False
  let ?counts = "foldl bump [] ds"
  obtain r t where res: "foldl vote_step (initial, 0) ?counts = (r, t)"
    by (cases "foldl vote_step (initial, 0) ?counts")
  then have sel: "select_offset initial ?counts = r" by (simp add: select_offset_def)
  from False obtain d where d: "d \<in> set ds" by (cases ds) auto
  then have "d \<in> fst ` set ?counts" using counts_of_deltas[of ds] by (metis set_firsts set_map)
  then obtain c where dc: "(d, c) \<in> set ?counts" by auto
  with counts_entry[OF dc] d have "0 < c" by (metis count_list_0_iff gr0I)
  with dc have "\<not> (\<forall>x \<in> set ?counts. snd x \<le> snd (initial, 0::nat))" by force
  with vote_result[OF res] obtain A B where ab: "?counts = A @ (r, t) # B"
    and lt: "\<forall>x \<in> set A. snd x < t" and le: "\<forall>x \<in> set B. snd x \<le> t" by blast
  have "(r, t) \<in> set ?counts" by (simp add: ab)
  from counts_entry[OF this] have r: "r \<in> set ds" and t: "t = count_list ds r" by simp_all
  have most: "count_list ds x \<le> count_list ds r" if "x \<in> set ds" for x
  proof -
    from that have "x \<in> fst ` set ?counts"
      using counts_of_deltas[of ds] by (metis set_firsts set_map)
    then obtain c where xc: "(x, c) \<in> set ?counts" by auto
    from counts_entry(2)[OF xc] have c: "c = count_list ds x" .
    from xc ab have "(x, c) \<in> set A \<or> (x, c) = (r, t) \<or> (x, c) \<in> set B" by auto
    with lt le have "c \<le> t" by force
    with c t show ?thesis by simp
  qed
  have first: "count_list ds x < count_list ds r" if "x \<in> set (takeWhile (\<lambda>d. d \<noteq> r) ds)" for x
  proof -
    have "firsts ds = map fst A @ r # map fst B"
      using counts_of_deltas[of ds] ab by (metis (no_types, lifting) fst_conv list.simps(9) map_append)
    from firsts_before[OF this] that have "x \<in> fst ` set A" by auto
    then obtain c where xc: "(x, c) \<in> set A" by auto
    then have "(x, c) \<in> set ?counts" by (simp add: ab)
    from counts_entry(2)[OF this] lt xc t show ?thesis by force
  qed
  from False r most first show ?thesis
    by (simp add: first_most_frequent_def sel list_all_iff)
qed

text \<open>
  Claim C4, as amended. Both votes count the page differences of the markers that the
  content render and the probe render resolve, and select a difference of the highest
  count; among several of the highest count, the one whose first occurrence comes first in
  the order of the markers. With no marker resolved in both renders the vote keeps its
  initial value: \<open>tocPageCount\<close> for the headings, the offset selected for the headings
  for the footnote references.
\<close>

theorem offset_vote_selects_first_most_frequent:
  "first_most_frequent (resolved_deltas markerPages probeMarkerPages tocIndices)
     (int tocPageCount)
     (computedOffset tocPageCount markerPages probeMarkerPages tocIndices) \<and>
   first_most_frequent
     (resolved_deltas contentPages probePages (map refIndex (valid_refs footnoteRefs)))
     tocOffset
     (computedFootnoteOffset tocOffset contentPages probePages footnoteRefs)"
  by (simp add: computedOffset_def computedFootnoteOffset_def tally_deltas
        select_offset_first_most_frequent)

theorem offset_vote_selects_first_most_frequent_witness:
  "resolved_deltas [0 \<mapsto> 1, 1 \<mapsto> 2, 2 \<mapsto> 2, 3 \<mapsto> 4] [0 \<mapsto> 4, 1 \<mapsto> 4, 2 \<mapsto> 4, 4 \<mapsto> 9]
      [0, 1, 2, 3, 4] = [3, 2, 2] \<and>
   computedOffset 3 [0 \<mapsto> 1, 1 \<mapsto> 2, 2 \<mapsto> 2, 3 \<mapsto> 4] [0 \<mapsto> 4, 1 \<mapsto> 4, 2 \<mapsto> 4, 4 \<mapsto> 9]
      [0, 1, 2, 3, 4] = 2 \<and>
   first_most_frequent [3, 2, 2] 3 2"
proof -
  have d: "resolved_deltas [0 \<mapsto> 1, 1 \<mapsto> 2, 2 \<mapsto> 2, 3 \<mapsto> 4] [0 \<mapsto> 4, 1 \<mapsto> 4, 2 \<mapsto> 4, 4 \<mapsto> 9]
      [0, 1, 2, 3, 4] = [3, 2, 2]"
    by code_simp
  have c: "computedOffset 3 [0 \<mapsto> 1, 1 \<mapsto> 2, 2 \<mapsto> 2, 3 \<mapsto> 4] [0 \<mapsto> 4, 1 \<mapsto> 4, 2 \<mapsto> 4, 4 \<mapsto> 9]
      [0, 1, 2, 3, 4] = 2"
    by code_simp
  from offset_vote_selects_first_most_frequent[of "[0 \<mapsto> 1, 1 \<mapsto> 2, 2 \<mapsto> 2, 3 \<mapsto> 4]"
      "[0 \<mapsto> 4, 1 \<mapsto> 4, 2 \<mapsto> 4, 4 \<mapsto> 9]" "[0, 1, 2, 3, 4]" 3]
  have "first_most_frequent [3, 2, 2] 3 2" unfolding d c by simp
  with d c show ?thesis by simp
qed

theorem offset_vote_tie_not_naive:
  "tally [0 \<mapsto> 1, 1 \<mapsto> 1] [0 \<mapsto> 3, 1 \<mapsto> 4] [0, 1] = [(2, 1), (3, 1)] \<and>
   computedOffset 3 [0 \<mapsto> 1, 1 \<mapsto> 1] [0 \<mapsto> 3, 1 \<mapsto> 4] [0, 1] = 2 \<and>
   computedFootnoteOffset (computedOffset 3 [0 \<mapsto> 1, 1 \<mapsto> 1] [0 \<mapsto> 3, 1 \<mapsto> 4] [0, 1])
     Map.empty Map.empty [Some \<lparr>refIndex = 0, ref_targetId = ''fn1''\<rparr>] = 2"
  by code_simp

section \<open>Properties of the footer sizing step\<close>

lemma three_cycles_fields [simp]:
  "footnoteAreaMm (three_cycles renderPlan s) = footnoteAreaMm s"
  "bottomMarginMm (three_cycles renderPlan s) = bottomMarginMm s"
  "estimated (three_cycles renderPlan s) = estimated s"
  "cycles (three_cycles renderPlan s) = cycles s + 3"
  "expansions (three_cycles renderPlan s) = expansions s"
  by (simp_all add: three_cycles_def recompute_cycle_def)

lemma three_cycles_plan:
  "\<exists>prev. activeFootnotePlan (three_cycles renderPlan s) = renderPlan (bottomMarginMm s) prev"
  by (simp add: three_cycles_def recompute_cycle_def) blast

text \<open>
  Claim C3. With footnotes, the sizing step runs three recompute cycles and measures. If
  the measured height is more than 0.25 mm above the reserved height, the reserved height
  becomes the ceiling of the measured height plus one, which is at least the measured
  height, the bottom margin becomes the reserved height plus the page number band, and
  three more cycles run; there is one expansion, and the step ends there whatever the
  second measurement is. Otherwise the heights stay. In both cases the step returns the
  plan of the last cycle, computed under the final margin: at most six cycles and at most
  one expansion.
\<close>

theorem footer_sizing_expands_at_most_once:
  "(let m = estimate (activeFootnotePlan (three_cycles renderPlan s));
        s' = footerSizing True renderPlan estimate s
    in (m > footnoteAreaMm s + 0.25 \<longrightarrow>
          footnoteAreaMm s' = of_int \<lceil>m + 1\<rceil> \<and> m \<le> footnoteAreaMm s' \<and>
          bottomMarginMm s' = footnoteAreaMm s' + pageNumberBandMm \<and>
          expansions s' = expansions s + 1 \<and> cycles s' = cycles s + 6) \<and>
       (\<not> m > footnoteAreaMm s + 0.25 \<longrightarrow>
          footnoteAreaMm s' = footnoteAreaMm s \<and> bottomMarginMm s' = bottomMarginMm s \<and>
          expansions s' = expansions s \<and> cycles s' = cycles s + 3) \<and>
       expansions s' \<le> expansions s + 1 \<and> cycles s' \<le> cycles s + 6 \<and>
       (\<exists>prev. activeFootnotePlan s' = renderPlan (bottomMarginMm s') prev) \<and>
       estimated s' = estimate (activeFootnotePlan s')) \<and>
   footerSizing False renderPlan estimate s = s"
proof -
  let ?m = "estimate (activeFootnotePlan (three_cycles renderPlan s))"
  let ?s' = "footerSizing True renderPlan estimate s"
  have ceil: "?m \<le> of_int \<lceil>?m + 1\<rceil>"
    by (meson le_of_int_ceiling less_eq_real_def order_trans less_add_one)
  show ?thesis
  proof (cases "?m > footnoteAreaMm s + 0.25")
    case True
    let ?grown = "applyPdfMarginState
        ((three_cycles renderPlan s)\<lparr>estimated := ?m, footnoteAreaMm := of_int \<lceil>?m + 1\<rceil>,
           expansions := expansions (three_cycles renderPlan s) + 1\<rparr>)"
    from True have r: "?s' = (three_cycles renderPlan ?grown)
        \<lparr>estimated := estimate (activeFootnotePlan (three_cycles renderPlan ?grown))\<rparr>"
      by (simp add: footerSizing_def Let_def)
    have m: "bottomMarginMm ?grown = of_int \<lceil>?m + 1\<rceil> + pageNumberBandMm"
      by (simp add: applyPdfMarginState_def)
    from three_cycles_plan[of renderPlan ?grown] obtain prev where
      "activeFootnotePlan (three_cycles renderPlan ?grown) = renderPlan (bottomMarginMm ?grown) prev" ..
    then have p: "\<exists>prev. activeFootnotePlan ?s' = renderPlan (bottomMarginMm ?s') prev"
      unfolding r by auto
    from True ceil p show ?thesis
      unfolding Let_def by (simp add: r applyPdfMarginState_def) (simp add: footerSizing_def)
  next
    case False
    then have r: "?s' = (three_cycles renderPlan s)\<lparr>estimated := ?m\<rparr>"
      by (simp add: footerSizing_def Let_def)
    from three_cycles_plan[of renderPlan s]
    have p: "\<exists>prev. activeFootnotePlan ?s' = renderPlan (bottomMarginMm ?s') prev"
      unfolding r by simp
    from False p show ?thesis
      unfolding Let_def by (simp add: r) (simp add: footerSizing_def)
  qed
qed

theorem footer_sizing_expands_at_most_once_witness:
  "(30::real) > footnoteAreaMm (initial_sizing ()) + 0.25 \<and>
   footnoteAreaMm (footerSizing True (\<lambda>m p. p) (\<lambda>p. 30) (initial_sizing ())) = 31 \<and>
   bottomMarginMm (footerSizing True (\<lambda>m p. p) (\<lambda>p. 30) (initial_sizing ())) = 37 \<and>
   expansions (footerSizing True (\<lambda>m p. p) (\<lambda>p. 30) (initial_sizing ())) = 1 \<and>
   cycles (footerSizing True (\<lambda>m p. p) (\<lambda>p. 30) (initial_sizing ())) = 6"
proof -
  have a: "footnoteAreaMm (initial_sizing ()) = 25" "expansions (initial_sizing ()) = 0"
    "cycles (initial_sizing ()) = 0"
    by (simp_all add: initial_sizing_def footnoteMinAreaMm_def)
  have c: "\<lceil>(30::real) + 1\<rceil> = 31" by simp
  from footer_sizing_expands_at_most_once[of "\<lambda>p. 30" "\<lambda>m p. p" "initial_sizing ()"]
  show ?thesis unfolding Let_def by (simp add: a pageNumberBandMm_def)
qed

section \<open>Properties of the document graph editor\<close>

lemma page_extends_refl [simp]: "page_extends p p"
  by (simp add: page_extends_def split: option.split)

lemma page_extends_trans: "page_extends a b \<Longrightarrow> page_extends b c \<Longrightarrow> page_extends a c"
  by (auto simp: page_extends_def split: option.splits intro: prefix_order.trans)

lemma dests_kept_refl [simp]: "dests_kept K d d"
  by (simp add: dests_kept_def)

lemma dests_kept_trans: "dests_kept K a b \<Longrightarrow> dests_kept K b c \<Longrightarrow> dests_kept K a c"
proof -
  assume ab: "dests_kept K a b" and bc: "dests_kept K b c"
  from ab bc have "fst ` set a \<subseteq> fst ` set c" unfolding dests_kept_def by blast
  moreover from ab bc have "\<forall>k. k \<notin> K \<longrightarrow> map_of c k = map_of a k"
    unfolding dests_kept_def by simp
  ultimately show ?thesis unfolding dests_kept_def by simp
qed

lemma dests_kept_mono: "dests_kept K a b \<Longrightarrow> K \<subseteq> K' \<Longrightarrow> dests_kept K' a b"
  by (auto simp: dests_kept_def)

lemma page_extends_push: "page_extends pg (push_annotation a pg)"
  by (simp add: page_extends_def push_annotation_def split: option.split)

lemma page_extends_ensure: "page_extends pg (ensurePdfPageAnnotationsArray pg)"
  by (simp add: page_extends_def ensurePdfPageAnnotationsArray_def split: option.split)

lemma page_extends_content: "page_extends pg (pg\<lparr>page_content := page_content pg @ ops\<rparr>)"
  by (simp add: page_extends_def split: option.split)

lemma page_extends_addPdfLinkAnnotation: "page_extends pg (addPdfLinkAnnotation lib pg rect spec)"
  by (auto simp: addPdfLinkAnnotation_def Let_def page_extends_push
           split: option.splits prod.splits link_spec.splits)

lemma setPdfNamedDestination_kept:
  assumes "\<And>k. getPdfNameOrNull lib name = Some k \<Longrightarrow> k \<in> K"
  shows "dests_kept K d (setPdfNamedDestination lib d name pageRef x y)"
  using assms
  by (auto simp: dests_kept_def setPdfNamedDestination_def update_conv' dom_update
           split: option.splits)

text \<open>A loop that can throw keeps what every step of it keeps.\<close>

lemma fold_err_invariant:
  assumes step: "\<And>s x s'. x \<in> set xs \<Longrightarrow> f s x = Inr s' \<Longrightarrow> R s s'"
    and refl: "\<And>s. R s s" and trans: "\<And>a b c. R a b \<Longrightarrow> R b c \<Longrightarrow> R a c"
    and run: "fold_err f s xs = Inr s'"
  shows "R s s'"
  using step run
proof (induction xs arbitrary: s)
  case Nil
  then show ?case by (simp add: refl)
next
  case (Cons x xs)
  from Cons.prems(2) obtain s1 where s1: "f s x = Inr s1" and r: "fold_err f s1 xs = Inr s'"
    by (auto split: sum.splits)
  from Cons.prems(1)[of x s s1] s1 have a: "R s s1" by simp
  have "R s1 s'" by (rule Cons.IH[OF _ r]) (auto intro: Cons.prems(1))
  with a show ?case by (rule trans)
qed

lemma page_extends_drawn_linked:
  "page_extends pg (addPdfLinkAnnotation lib (pg\<lparr>page_content := page_content pg @ ops\<rparr>) rect spec)"
  by (rule page_extends_trans[OF page_extends_content page_extends_addPdfLinkAnnotation])

lemma draw_fragment_extends:
  assumes "draw_fragment lib opts existing cursorY (pg, x) frag = Inr (pg', x')"
  shows "page_extends pg pg'"
  using assms
  by (auto simp: draw_fragment_def Let_def page_extends_drawn_linked page_extends_content
           split: if_splits option.splits sum.splits)

lemma fst_extends_trans:
  "page_extends (fst a) (fst b) \<Longrightarrow> page_extends (fst b) (fst c) \<Longrightarrow> page_extends (fst a) (fst c)"
  by (rule page_extends_trans)

lemma draw_line_extends:
  assumes "draw_line lib opts existing (pg, y) line = Inr (pg', y')"
  shows "page_extends pg pg'"
proof (cases "y < footnoteMinY opts")
  case True
  with assms show ?thesis by (simp add: draw_line_def)
next
  case False
  with assms obtain x' where f: "fold_err (draw_fragment lib opts existing y)
      (pg, mmToPt (leftMarginMm opts)) line = Inr (pg', x')"
    by (auto simp: draw_line_def split: sum.splits prod.splits)
  have "page_extends (fst (pg, mmToPt (leftMarginMm opts))) (fst (pg', x'))"
  proof (rule fold_err_invariant[where R = "\<lambda>a b. page_extends (fst a) (fst b)", OF _ _ _ f])
    fix s fr s'
    assume "draw_fragment lib opts existing y s fr = Inr s'"
    then show "page_extends (fst s) (fst s')"
      using draw_fragment_extends[of lib opts existing y "fst s" "snd s" fr "fst s'" "snd s'"]
      by simp
  qed (simp, rule fst_extends_trans)
  then show ?thesis by simp
qed

lemma draw_lines_extends:
  assumes "fold_err (draw_line lib opts existing) (pg, y) ls = Inr (pg', y')"
  shows "page_extends pg pg'"
proof -
  have "page_extends (fst (pg, y)) (fst (pg', y'))"
  proof (rule fold_err_invariant[where R = "\<lambda>a b. page_extends (fst a) (fst b)", OF _ _ _ assms])
    fix s l s'
    assume "draw_line lib opts existing s l = Inr s'"
    then show "page_extends (fst s) (fst s')"
      using draw_line_extends[of lib opts existing "fst s" "snd s" l "fst s'" "snd s'"] by simp
  qed (simp, rule fst_extends_trans)
  then show ?thesis by simp
qed

lemma draw_items_frame:
  assumes "draw_items lib opts pageRef st layout = Inr st'"
  shows "page_extends (ds_page st) (ds_page st') \<and>
         dests_kept (item_dest_names lib (map fst layout)) (ds_dests st) (ds_dests st')"
  using assms
proof (induction layout arbitrary: st)
  case Nil
  then show ?case by simp
next
  case (Cons il rest)
  obtain item ls where il: "il = (item, ls)" by (cases il)
  have sub: "item_dest_names lib (map fst rest) \<subseteq> item_dest_names lib (map fst (il # rest))"
    by (auto simp: item_dest_names_def)
  show ?case
  proof (cases "ls = []")
    case True
    with Cons.prems il have "draw_items lib opts pageRef st rest = Inr st'" by simp
    from Cons.IH[OF this] sub show ?thesis by (auto intro: dests_kept_mono)
  next
    case False
    let ?dests = "setPdfNamedDestination lib (ds_dests st) (destName item) pageRef
                         (mmToPt (leftMarginMm opts)) (ds_cursorY st + lineHeightPt opts)"
    let ?existing = "insert (destName item) (ds_existing st)"
    from Cons.prems il False obtain pg y where
      f: "fold_err (draw_line lib opts ?existing) (ds_page st, ds_cursorY st) ls = Inr (pg, y)"
      and r: "draw_items lib opts pageRef
                \<lparr>ds_page = pg, ds_dests = ?dests, ds_existing = ?existing,
                 ds_cursorY = (if rest \<noteq> [] then y - itemGapPt opts else y)\<rparr> rest = Inr st'"
      by (auto simp: Let_def split: sum.splits prod.splits)
    from Cons.IH[OF r] have a: "page_extends pg (ds_page st')"
      and b: "dests_kept (item_dest_names lib (map fst rest)) ?dests (ds_dests st')" by simp_all
    have c: "dests_kept (item_dest_names lib (map fst (il # rest))) (ds_dests st) ?dests"
      by (rule setPdfNamedDestination_kept) (simp add: item_dest_names_def il)
    from page_extends_trans[OF draw_lines_extends[OF f] a]
      dests_kept_trans[OF c dests_kept_mono[OF b sub]]
    show ?thesis by simp
  qed
qed

lemma doc_frame_refl [simp]: "doc_frame K P doc doc"
  by (simp add: doc_frame_def list_all2_conv_all_nth)

lemma doc_frame_trans:
  assumes "doc_frame K P a b" and "doc_frame K P b c"
  shows "doc_frame K P a c"
proof -
  from assms have ab: "list_all2 page_extends (doc_pages a) (doc_pages b)"
    and bc: "list_all2 page_extends (doc_pages b) (doc_pages c)"
    by (simp_all add: doc_frame_def)
  from ab have len: "length (doc_pages a) = length (doc_pages b)" by (rule list_all2_lengthD)
  have "list_all2 page_extends (doc_pages a) (doc_pages c)"
    by (rule list_all2_trans[OF _ ab bc]) (rule page_extends_trans)
  moreover from assms len
  have "\<forall>i<length (doc_pages a). i \<notin> P \<longrightarrow> doc_pages c ! i = doc_pages a ! i"
    by (simp add: doc_frame_def)
  moreover from assms have "dests_kept K (dests_of a) (dests_of c)"
    unfolding doc_frame_def by (blast intro: dests_kept_trans)
  ultimately show ?thesis by (simp add: doc_frame_def)
qed

lemma doc_frame_mono:
  "doc_frame K P a b \<Longrightarrow> K \<subseteq> K' \<Longrightarrow> P \<subseteq> P' \<Longrightarrow> doc_frame K' P' a b"
  unfolding doc_frame_def using dests_kept_mono by blast

lemma layout_items [simp]: "map fst (layoutFootnotesForPage its w widthOf) = its"
  by (simp add: layoutFootnotesForPage_def comp_def)

lemma layout_empty [simp]: "layoutFootnotesForPage its w widthOf = [] \<longleftrightarrow> its = []"
  by (simp add: layoutFootnotesForPage_def)

lemma list_all2_extends_update:
  assumes "i < length xs" and "page_extends (xs ! i) y"
  shows "list_all2 page_extends xs (xs[i := y])"
  using assms by (simp add: list_all2_conv_all_nth nth_list_update)

lemma inject_plan_frame:
  assumes "inject_plan lib opts (doc, ex) pagePlan = Inr (doc', ex')"
  shows "doc_frame (item_dest_names lib (fp_items pagePlan)) (planned_pages [pagePlan]) doc doc'"
proof (cases "finalPage pagePlan - 1 < 0 \<or> finalPage pagePlan - 1 \<ge> int (length (doc_pages doc)) \<or>
              fp_items pagePlan = []")
  case True
  with assms have "doc' = doc" by (auto simp: inject_plan_def Let_def split: if_splits)
  then show ?thesis by simp
next
  case False
  let ?i = "nat (finalPage pagePlan - 1)"
  let ?pg = "doc_pages doc ! ?i"
  let ?ruled = "?pg\<lparr>page_content := page_content ?pg @
                     [DrawLine (mmToPt (leftMarginMm opts))
                        (mmToPt (opt_bottomMarginMm opts) - 0.8)
                        (page_width ?pg - mmToPt (rightMarginMm opts))
                        (mmToPt (opt_bottomMarginMm opts) - 0.8)]\<rparr>"
  let ?layout = "layoutFootnotesForPage (fp_items pagePlan)
       (max 40 (page_width ?pg - mmToPt (leftMarginMm opts) - mmToPt (rightMarginMm opts)))
       (lib_widthOf lib)"
  from False have i: "?i < length (doc_pages doc)" and p: "?i \<in> planned_pages [pagePlan]"
    by (auto simp: planned_pages_def)
  from assms False obtain st' where
    d: "draw_items lib opts ?i \<lparr>ds_page = ?ruled, ds_dests = dests_of doc, ds_existing = ex,
          ds_cursorY = footnoteTopY opts - fontSizePt opts\<rparr> ?layout = Inr st'"
    and doc': "doc' = doc\<lparr>doc_pages := (doc_pages doc)[?i := ds_page st'],
                         doc_dests := Some (ds_dests st')\<rparr>"
    by (auto simp: inject_plan_def Let_def split: sum.splits)
  from draw_items_frame[OF d] have e: "page_extends ?ruled (ds_page st')"
    and k: "dests_kept (item_dest_names lib (fp_items pagePlan)) (dests_of doc) (ds_dests st')"
    by simp_all
  have "page_extends ?pg (ds_page st')"
    by (rule page_extends_trans[OF page_extends_content e])
  from list_all2_extends_update[OF i this]
  have a: "list_all2 page_extends (doc_pages doc) (doc_pages doc')" by (simp add: doc')
  have b: "\<forall>j<length (doc_pages doc). j \<notin> planned_pages [pagePlan] \<longrightarrow>
             doc_pages doc' ! j = doc_pages doc ! j"
  proof (intro allI impI)
    fix j assume "j < length (doc_pages doc)" "j \<notin> planned_pages [pagePlan]"
    with p have "j \<noteq> ?i" by blast
    then show "doc_pages doc' ! j = doc_pages doc ! j" by (simp add: doc')
  qed
  from k have c: "dests_kept (item_dest_names lib (fp_items pagePlan)) (dests_of doc) (dests_of doc')"
    by (simp add: doc' dests_of_def)
  from a b c show ?thesis unfolding doc_frame_def by blast
qed

lemma planned_pages_mem: "p \<in> set plans \<Longrightarrow> planned_pages [p] \<subseteq> planned_pages plans"
  by (auto simp: planned_pages_def split: if_splits)

lemma plan_dest_names_mem:
  "p \<in> set plans \<Longrightarrow> item_dest_names lib (fp_items p) \<subseteq> plan_dest_names lib plans"
  by (auto simp: plan_dest_names_def)

lemma injectFootnotesIntoPdf_frame:
  assumes "injectFootnotesIntoPdf lib opts doc plans = Inr doc'"
  shows "doc_frame (plan_dest_names lib plans) (planned_pages plans) doc doc'"
proof (cases "plans = []")
  case True
  with assms show ?thesis by (simp add: injectFootnotesIntoPdf_def)
next
  case False
  let ?prepared = "ensurePdfDestinationsDict doc"
  from assms False obtain ex' where
    f: "fold_err (inject_plan lib opts) (?prepared, collectExistingDestinationNames ?prepared) plans =
          Inr (doc', ex')"
    by (auto simp: injectFootnotesIntoPdf_def Let_def split: sum.splits prod.splits)
  have "doc_frame (plan_dest_names lib plans) (planned_pages plans)
          (fst (?prepared, collectExistingDestinationNames ?prepared)) (fst (doc', ex'))"
  proof (rule fold_err_invariant[where
        R = "\<lambda>a b. doc_frame (plan_dest_names lib plans) (planned_pages plans) (fst a) (fst b)",
        OF _ _ _ f])
    fix s p s'
    assume p: "p \<in> set plans" and "inject_plan lib opts s p = Inr s'"
    then have "doc_frame (item_dest_names lib (fp_items p)) (planned_pages [p]) (fst s) (fst s')"
      using inject_plan_frame[of lib opts "fst s" "snd s" p "fst s'" "snd s'"] by simp
    then show "doc_frame (plan_dest_names lib plans) (planned_pages plans) (fst s) (fst s')"
      using plan_dest_names_mem[OF p] planned_pages_mem[OF p] by (rule doc_frame_mono)
  next
    fix a b c :: "pdf_doc \<times> string set"
    assume "doc_frame (plan_dest_names lib plans) (planned_pages plans) (fst a) (fst b)"
      "doc_frame (plan_dest_names lib plans) (planned_pages plans) (fst b) (fst c)"
    then show "doc_frame (plan_dest_names lib plans) (planned_pages plans) (fst a) (fst c)"
      by (rule doc_frame_trans)
  qed simp
  then show ?thesis
    by (simp add: doc_frame_def ensurePdfDestinationsDict_def dests_of_def)
qed

lemma copy_annots_extends:
  "page_extends p q \<Longrightarrow>
   page_extends p (foldl (\<lambda>pg annotRef. case annotRef of None \<Rightarrow> pg
                           | Some a \<Rightarrow> push_annotation (a\<lparr>annot_parent := Some i\<rparr>) pg) q refs)"
proof (induction refs arbitrary: q)
  case Nil
  then show ?case by simp
next
  case (Cons r refs)
  have "page_extends p (case r of None \<Rightarrow> q
                        | Some a \<Rightarrow> push_annotation (a\<lparr>annot_parent := Some i\<rparr>) q)"
  proof (cases r)
    case None
    with Cons.prems show ?thesis by simp
  next
    case (Some a)
    with page_extends_trans[OF Cons.prems page_extends_push] show ?thesis by simp
  qed
  from Cons.IH[OF this] show ?case by simp
qed

lemma copy_annots_content:
  "page_content (foldl (\<lambda>pg annotRef. case annotRef of None \<Rightarrow> pg
                           | Some a \<Rightarrow> push_annotation (a\<lparr>annot_parent := Some i\<rparr>) pg) q refs) =
   page_content q"
  by (induction refs arbitrary: q) (simp_all add: push_annotation_def split: option.split)

lemma merge_overlay_page_extends: "page_extends pg (merge_overlay_page i pg ov)"
proof (cases "ov_annots ov")
  case None
  then show ?thesis by (simp add: merge_overlay_page_def page_extends_content)
next
  case (Some refs)
  have "page_extends pg
          (ensurePdfPageAnnotationsArray (pg\<lparr>page_content := page_content pg @ [DrawPage i]\<rparr>))"
    by (rule page_extends_trans[OF page_extends_content page_extends_ensure])
  from copy_annots_extends[OF this] Some show ?thesis
    by (simp add: merge_overlay_page_def)
qed

lemma merge_overlay_page_content:
  "page_content (merge_overlay_page i pg ov) = page_content pg @ [DrawPage i]"
  by (cases "ov_annots ov")
     (simp_all add: merge_overlay_page_def Let_def copy_annots_content
        ensurePdfPageAnnotationsArray_def)

lemma register_dest_kept:
  assumes "c \<in> set coords"
  shows "dests_kept (coord_dest_names lib coords) (fst st) (fst (register_dest lib basePages st c))"
proof -
  have "dests_kept (coord_dest_names lib coords) d
          (setPdfNamedDestination lib d (dc_destName c) pageRef x y)"
    if "startsWith (dc_destName c) ''export-footnote-''" for d pageRef x y
  proof (rule setPdfNamedDestination_kept)
    fix k assume "getPdfNameOrNull lib (dc_destName c) = Some k"
    with assms that show "k \<in> coord_dest_names lib coords"
      by (force simp: coord_dest_names_def)
  qed
  then show ?thesis
    by (cases st) (simp add: register_dest_def Let_def)
qed

lemma register_dests_kept:
  assumes "set cs \<subseteq> set coords"
  shows "dests_kept (coord_dest_names lib coords) (fst st)
           (fst (foldl (register_dest lib basePages) st cs))"
  using assms
proof (induction cs arbitrary: st)
  case Nil
  then show ?case by simp
next
  case (Cons c cs)
  from Cons.prems have c: "c \<in> set coords" and cs: "set cs \<subseteq> set coords" by simp_all
  from dests_kept_trans[OF register_dest_kept[OF c] Cons.IH[OF cs]]
  show ?case by simp
qed

lemma injectFootnotesOverlayIntoPdf_pages:
  assumes "plans \<noteq> []"
  shows "doc_pages (injectFootnotesOverlayIntoPdf lib doc plans overlayPages coords) =
           map (\<lambda>i. merge_overlay_page i (doc_pages doc ! i) (overlayPages ! i))
             [0..<min (length (doc_pages doc)) (length overlayPages)] @
           drop (min (length (doc_pages doc)) (length overlayPages)) (doc_pages doc)"
  using assms by (simp add: injectFootnotesOverlayIntoPdf_def Let_def)

lemma injectFootnotesOverlayIntoPdf_page:
  assumes "plans \<noteq> []" and "i < length (doc_pages doc)"
  shows "doc_pages (injectFootnotesOverlayIntoPdf lib doc plans overlayPages coords) ! i =
           (if i < length overlayPages
            then merge_overlay_page i (doc_pages doc ! i) (overlayPages ! i)
            else doc_pages doc ! i)"
  using assms
  by (simp add: injectFootnotesOverlayIntoPdf_pages nth_append)

lemma injectFootnotesOverlayIntoPdf_length:
  "length (doc_pages (injectFootnotesOverlayIntoPdf lib doc plans overlayPages coords)) =
     length (doc_pages doc)"
  by (cases "plans = []") (simp_all add: injectFootnotesOverlayIntoPdf_pages,
      simp add: injectFootnotesOverlayIntoPdf_def)

lemma injectFootnotesOverlayIntoPdf_dests:
  "dests_kept (coord_dest_names lib coords) (dests_of doc)
     (dests_of (injectFootnotesOverlayIntoPdf lib doc plans overlayPages coords))"
  using register_dests_kept[of coords coords lib "(dests_of doc, {})"]
  by (simp add: injectFootnotesOverlayIntoPdf_def Let_def dests_of_def)

lemma injectFootnotesOverlayIntoPdf_frame:
  "doc_frame (coord_dest_names lib coords)
     {i. i < length overlayPages} doc
     (injectFootnotesOverlayIntoPdf lib doc plans overlayPages coords)"
proof (cases "plans = []")
  case True
  then show ?thesis by (simp add: injectFootnotesOverlayIntoPdf_def)
next
  case False
  let ?doc' = "injectFootnotesOverlayIntoPdf lib doc plans overlayPages coords"
  have "list_all2 page_extends (doc_pages doc) (doc_pages ?doc')"
    unfolding list_all2_conv_all_nth
    by (simp add: injectFootnotesOverlayIntoPdf_length
          injectFootnotesOverlayIntoPdf_page[OF False] merge_overlay_page_extends)
  moreover have "\<forall>i<length (doc_pages doc). i \<notin> {i. i < length overlayPages} \<longrightarrow>
                   doc_pages ?doc' ! i = doc_pages doc ! i"
    by (simp add: injectFootnotesOverlayIntoPdf_page[OF False])
  ultimately show ?thesis
    unfolding doc_frame_def using injectFootnotesOverlayIntoPdf_dests by blast
qed

subsection \<open>Claim C5: what the two injections leave alone\<close>

text \<open>
  Claim C5, as the code has it. The direct path (\<open>injectFootnotesIntoPdf\<close>), when it
  returns a document, leaves every page without a plan that has items exactly as it was; the
  overlay path (\<open>injectFootnotesOverlayIntoPdf\<close>) leaves exactly as they were only the
  pages beyond the last overlay page: on each of the first \<open>min(pages, overlay pages)\<close>
  pages it draws the overlay page at the end of the content stream, with or without a
  plan for that page. On every page both paths only add at the end of the content
  stream and of the annotation array: no annotation is removed or replaced. Every
  name of the destination table stays in it, and a destination under a name other than
  the names that the path registers (the \<open>destName\<close> of a planned item, the
  \<open>export-footnote-\<close> names of the overlay coordinates) stays as it was.
\<close>

theorem footnote_injection_frame:
  "(\<forall>doc'. injectFootnotesIntoPdf lib opts doc plans = Inr doc' \<longrightarrow>
       doc_frame (plan_dest_names lib plans) (planned_pages plans) doc doc') \<and>
   doc_frame (coord_dest_names lib coords) {i. i < length overlayPages} doc
     (injectFootnotesOverlayIntoPdf lib doc plans overlayPages coords) \<and>
   (plans \<noteq> [] \<longrightarrow>
      (\<forall>i. i < length (doc_pages doc) \<and> i < length overlayPages \<longrightarrow>
         page_content (doc_pages (injectFootnotesOverlayIntoPdf lib doc plans overlayPages coords) ! i) =
           page_content (doc_pages doc ! i) @ [DrawPage i]))"
  by (simp add: injectFootnotesIntoPdf_frame injectFootnotesOverlayIntoPdf_frame
        injectFootnotesOverlayIntoPdf_page merge_overlay_page_content)

text \<open>An instance: a document of two pages with a link and a destination of the table of
  contents, and one footnote planned on the first page.\<close>

theorem footnote_injection_frame_witness:
  "let lib = \<lparr>lib_decode = Some, lib_encode = Some, lib_pdfName = Some,
                lib_widthOf = (\<lambda>s. real (length s))\<rparr>;
       opts = \<lparr>leftMarginMm = 0, rightMarginMm = 0, opt_bottomMarginMm = 127,
                opt_pageNumberBandMm = 0, fontSizePt = 10, lineHeightMultiplier = 1,
                itemGapPt = 0, topPaddingPt = 0, bottomPaddingPt = 0\<rparr>;
       toc = \<lparr>annot_rect = (0, 0, 10, 10), annot_target = NamedDest ''toc-1'',
               annot_parent = Some 0\<rparr>;
       doc = \<lparr>doc_pages =
                 [\<lparr>page_width = 100, page_height = 800, page_content = [BaseContent 0],
                   page_annots = Some [toc]\<rparr>,
                  \<lparr>page_width = 100, page_height = 800, page_content = [BaseContent 1],
                   page_annots = None\<rparr>],
               doc_dests = Some [(''toc-1'', \<lparr>dest_page = 1, dest_x = 0, dest_y = 700\<rparr>)]\<rparr>;
       plans = [\<lparr>finalPage = 1, fp_items =
                  [\<lparr>targetId = ''a'', targetIds = [''a''], number = 1, numberLabel = ''1'',
                    numbers = [1], lastAssignedNumber = Some 1,
                    destName = ''export-footnote-1-a'',
                    segments = [Segment ''note'' (Some ''#toc-1'')]\<rparr>]\<rparr>];
       overlayPages = [\<lparr>ov_annots = Some [Some toc, None]\<rparr>];
       coords = [\<lparr>dc_destName = ''export-footnote-1-a'', dc_pageNumber = 1, dc_xPt = 5,
                  dc_yFromTopPt = 750\<rparr>];
       merged = injectFootnotesOverlayIntoPdf lib doc plans overlayPages coords
   in (\<exists>doc'. injectFootnotesIntoPdf lib opts doc plans = Inr doc' \<and>
          doc_pages doc' ! 1 = doc_pages doc ! 1 \<and>
          map_of (dests_of doc') ''toc-1'' = map_of (dests_of doc) ''toc-1'') \<and>
      doc_pages merged ! 1 = doc_pages doc ! 1 \<and>
      page_content (doc_pages merged ! 0) = [BaseContent 0, DrawPage 0] \<and>
      map_of (dests_of merged) ''toc-1'' = map_of (dests_of doc) ''toc-1''"
proof -
  let ?lib = "\<lparr>lib_decode = Some, lib_encode = Some, lib_pdfName = Some,
                lib_widthOf = (\<lambda>s. real (length s))\<rparr>"
  let ?opts = "\<lparr>leftMarginMm = 0, rightMarginMm = 0, opt_bottomMarginMm = 127,
                opt_pageNumberBandMm = 0, fontSizePt = 10, lineHeightMultiplier = 1,
                itemGapPt = 0, topPaddingPt = 0, bottomPaddingPt = 0\<rparr>"
  let ?toc = "\<lparr>annot_rect = (0, 0, 10, 10), annot_target = NamedDest ''toc-1'',
               annot_parent = Some 0\<rparr>"
  let ?doc = "\<lparr>doc_pages =
                 [\<lparr>page_width = 100, page_height = 800, page_content = [BaseContent 0],
                   page_annots = Some [?toc]\<rparr>,
                  \<lparr>page_width = 100, page_height = 800, page_content = [BaseContent 1],
                   page_annots = None\<rparr>],
               doc_dests = Some [(''toc-1'', \<lparr>dest_page = 1, dest_x = 0, dest_y = 700\<rparr>)]\<rparr>"
  let ?plans = "[\<lparr>finalPage = 1, fp_items =
                  [\<lparr>targetId = ''a'', targetIds = [''a''], number = 1, numberLabel = ''1'',
                    numbers = [1], lastAssignedNumber = Some 1,
                    destName = ''export-footnote-1-a'',
                    segments = [Segment ''note'' (Some ''#toc-1'')]\<rparr>]\<rparr>]"
  let ?overlayPages = "[\<lparr>ov_annots = Some [Some ?toc, None]\<rparr>]"
  let ?coords = "[\<lparr>dc_destName = ''export-footnote-1-a'', dc_pageNumber = 1, dc_xPt = 5,
                  dc_yFromTopPt = 750\<rparr>]"
  let ?direct = "injectFootnotesIntoPdf ?lib ?opts ?doc ?plans"
  let ?merged = "injectFootnotesOverlayIntoPdf ?lib ?doc ?plans ?overlayPages ?coords"
  note inst = footnote_injection_frame[where lib = ?lib and opts = ?opts and doc = ?doc
      and plans = ?plans and overlayPages = ?overlayPages and coords = ?coords]
  have "\<not> isl ?direct" by code_simp
  then obtain d where d: "?direct = Inr d" by (cases ?direct) auto
  with inst have f: "doc_frame (plan_dest_names ?lib ?plans) (planned_pages ?plans) ?doc d"
    by blast
  from inst have g: "doc_frame (coord_dest_names ?lib ?coords) {i. i < length ?overlayPages}
      ?doc ?merged"
    by blast
  from inst have h: "page_content (doc_pages ?merged ! 0) =
      page_content (doc_pages ?doc ! 0) @ [DrawPage 0]"
    by simp
  have p: "1 \<notin> planned_pages ?plans" by (simp add: planned_pages_def)
  have k: "''toc-1'' \<notin> plan_dest_names ?lib ?plans" by code_simp
  have k': "''toc-1'' \<notin> coord_dest_names ?lib ?coords" by code_simp
  from f p have a: "doc_pages d ! 1 = doc_pages ?doc ! 1" by (simp add: doc_frame_def)
  from f k have b: "map_of (dests_of d) ''toc-1'' = map_of (dests_of ?doc) ''toc-1''"
    unfolding doc_frame_def dests_kept_def by blast
  from g have c: "doc_pages ?merged ! 1 = doc_pages ?doc ! 1" by (simp add: doc_frame_def)
  from g k' have e: "map_of (dests_of ?merged) ''toc-1'' = map_of (dests_of ?doc) ''toc-1''"
    unfolding doc_frame_def dests_kept_def by blast
  from h have h': "page_content (doc_pages ?merged ! 0) = [BaseContent 0, DrawPage 0]" by simp
  from d a b have "\<exists>doc'. ?direct = Inr doc' \<and> doc_pages doc' ! 1 = doc_pages ?doc ! 1 \<and>
      map_of (dests_of doc') ''toc-1'' = map_of (dests_of ?doc) ''toc-1''"
    by blast
  with c h' e show ?thesis unfolding Let_def by blast
qed

text \<open>A document of two pages whose second page has the content \<open>[BaseContent 1]\<close>, a plan
  for the first page only, and the overlay of two pages that the browser renders for it:
  the overlay path draws on the second page.\<close>

theorem overlay_draws_on_pages_without_plan:
  "1 \<notin> planned_pages
      [\<lparr>finalPage = 1, fp_items =
         [\<lparr>targetId = ''a'', targetIds = [''a''], number = 1, numberLabel = ''1'',
           numbers = [1], lastAssignedNumber = Some 1, destName = ''export-footnote-1-a'',
           segments = [Segment ''note'' None]\<rparr>]\<rparr>] \<and>
   page_content (doc_pages
      (injectFootnotesOverlayIntoPdf
         \<lparr>lib_decode = Some, lib_encode = Some, lib_pdfName = Some,
          lib_widthOf = (\<lambda>s. real (length s))\<rparr>
         \<lparr>doc_pages =
            [\<lparr>page_width = 100, page_height = 800, page_content = [BaseContent 0],
              page_annots = None\<rparr>,
             \<lparr>page_width = 100, page_height = 800, page_content = [BaseContent 1],
              page_annots = None\<rparr>],
          doc_dests = None\<rparr>
         [\<lparr>finalPage = 1, fp_items =
            [\<lparr>targetId = ''a'', targetIds = [''a''], number = 1, numberLabel = ''1'',
              numbers = [1], lastAssignedNumber = Some 1, destName = ''export-footnote-1-a'',
              segments = [Segment ''note'' None]\<rparr>]\<rparr>]
         [\<lparr>ov_annots = None\<rparr>, \<lparr>ov_annots = None\<rparr>]
         [\<lparr>dc_destName = ''export-footnote-1-a'', dc_pageNumber = 1, dc_xPt = 5,
           dc_yFromTopPt = 750\<rparr>]) ! 1) =
     [BaseContent 1, DrawPage 1]"
  by (intro conjI) (simp add: planned_pages_def, code_simp)

section \<open>Properties of the link resolution\<close>

lemma relative_href:
  assumes "\<not> startsWith (trim href) ''#''" and "\<not> hasScheme (trim href)"
    and "\<not> startsWith (trim href) ''/''"
  shows "resolveFootnoteLinkSpec dec enc href names = Inr None"
  using assms by (simp add: resolveFootnoteLinkSpec_def Let_def)

lemma resolve_error:
  assumes "resolveFootnoteLinkSpec dec enc href names = Inl e"
  shows "startsWith (trim href) ''#'' \<and>
         enc (safeDecodeURIComponent dec (drop 1 (trim href))) = None"
  using assms
  by (auto simp: resolveFootnoteLinkSpec_def Let_def split: if_splits option.splits list.splits)

lemma resolve_returns:
  assumes "startsWith (trim href) ''#'' \<longrightarrow>
           enc (safeDecodeURIComponent dec (drop 1 (trim href))) \<noteq> None"
  shows "\<exists>r. resolveFootnoteLinkSpec dec enc href names = Inr r"
proof (cases "resolveFootnoteLinkSpec dec enc href names")
  case (Inl e)
  from resolve_error[OF this] assms show ?thesis by simp
next
  case (Inr r)
  then show ?thesis by simp
qed

lemma draw_fragment_no_link:
  assumes "frag_href frag = Some href"
    and "resolveFootnoteLinkSpec (lib_decode lib) (lib_encode lib) href existing = Inr None"
  shows "\<exists>pg' x'. draw_fragment lib opts existing y (pg, x) frag = Inr (pg', x') \<and>
           page_annots pg' = page_annots pg"
  using assms by (simp add: draw_fragment_def Let_def addPdfLinkAnnotation_def)

text \<open>
  Claim C10, as the code has it. The tests are made on the trimmed \<open>href\<close>: when the
  trimmed \<open>href\<close> does not start with \<open>#\<close>, does not begin with a URL scheme and does
  not start with \<open>/\<close>, \<open>resolveFootnoteLinkSpec\<close> returns \<open>null\<close>; the direct drawing
  path then draws the fragment and adds no annotation to the page. The function returns
  (does not throw) for every \<open>href\<close> whose trimmed form does not start with \<open>#\<close>, and
  for one that does whenever \<open>encodeURIComponent\<close>, the one call that is not guarded,
  returns on the decoded rest.
\<close>

theorem relative_href_gets_no_link:
  "(\<not> startsWith (trim href) ''#'' \<and> \<not> hasScheme (trim href) \<and> \<not> startsWith (trim href) ''/''
      \<longrightarrow> resolveFootnoteLinkSpec (lib_decode lib) (lib_encode lib) href existing = Inr None) \<and>
   (frag_href frag = Some href \<and>
    resolveFootnoteLinkSpec (lib_decode lib) (lib_encode lib) href existing = Inr None
      \<longrightarrow> (\<exists>pg' x'. draw_fragment lib opts existing y (pg, x) frag = Inr (pg', x') \<and>
             page_annots pg' = page_annots pg)) \<and>
   ((startsWith (trim href) ''#'' \<longrightarrow>
       lib_encode lib (safeDecodeURIComponent (lib_decode lib) (drop 1 (trim href))) \<noteq> None)
      \<longrightarrow> (\<exists>r. resolveFootnoteLinkSpec (lib_decode lib) (lib_encode lib) href existing = Inr r))"
  using relative_href[of href "lib_decode lib" "lib_encode lib" existing]
    draw_fragment_no_link[of frag href lib existing opts y pg x]
    resolve_returns[of href "lib_encode lib" "lib_decode lib" existing]
  by blast

text \<open>An instance: the relative address \<open>notes/page.html\<close>.\<close>

theorem relative_href_gets_no_link_witness:
  "let lib = \<lparr>lib_decode = Some, lib_encode = Some, lib_pdfName = Some,
                lib_widthOf = (\<lambda>s. real (length s))\<rparr>;
       opts = \<lparr>leftMarginMm = 0, rightMarginMm = 0, opt_bottomMarginMm = 127,
                opt_pageNumberBandMm = 0, fontSizePt = 10, lineHeightMultiplier = 1,
                itemGapPt = 0, topPaddingPt = 0, bottomPaddingPt = 0\<rparr>;
       pg = \<lparr>page_width = 100, page_height = 800, page_content = [BaseContent 0],
              page_annots = None\<rparr>;
       frag = \<lparr>frag_text = ''see'', frag_href = Some ''notes/page.html'', frag_width = 3,
                isSpace = False\<rparr>
   in \<not> startsWith (trim ''notes/page.html'') ''#'' \<and> \<not> hasScheme (trim ''notes/page.html'') \<and>
      \<not> startsWith (trim ''notes/page.html'') ''/'' \<and>
      resolveFootnoteLinkSpec (lib_decode lib) (lib_encode lib) ''notes/page.html'' {} = Inr None \<and>
      (\<exists>pg' x'. draw_fragment lib opts {} 350 (pg, 0) frag = Inr (pg', x') \<and>
         page_annots pg' = None) \<and>
      (\<exists>r. resolveFootnoteLinkSpec (lib_decode lib) (lib_encode lib) ''notes/page.html'' {} = Inr r)"
proof -
  let ?lib = "\<lparr>lib_decode = Some, lib_encode = Some, lib_pdfName = Some,
                lib_widthOf = (\<lambda>s. real (length s))\<rparr>"
  let ?opts = "\<lparr>leftMarginMm = 0, rightMarginMm = 0, opt_bottomMarginMm = 127,
                opt_pageNumberBandMm = 0, fontSizePt = 10, lineHeightMultiplier = 1,
                itemGapPt = 0, topPaddingPt = 0, bottomPaddingPt = 0\<rparr>"
  let ?pg = "\<lparr>page_width = 100, page_height = 800, page_content = [BaseContent 0],
              page_annots = None\<rparr>"
  let ?frag = "\<lparr>frag_text = ''see'', frag_href = Some ''notes/page.html'', frag_width = 3,
                isSpace = False\<rparr>"
  have a: "\<not> startsWith (trim ''notes/page.html'') ''#''" by code_simp
  have b: "\<not> hasScheme (trim ''notes/page.html'')" by code_simp
  have c: "\<not> startsWith (trim ''notes/page.html'') ''/''" by code_simp
  note inst = relative_href_gets_no_link[where href = "''notes/page.html''" and lib = ?lib
      and existing = "{}" and frag = ?frag and opts = ?opts and y = 350 and pg = ?pg and x = 0]
  from inst a b c
  have r: "resolveFootnoteLinkSpec (lib_decode ?lib) (lib_encode ?lib) ''notes/page.html'' {} =
             Inr None"
    by blast
  have "frag_href ?frag = Some ''notes/page.html''" by simp
  with inst r
  have d: "\<exists>pg' x'. draw_fragment ?lib ?opts {} 350 (?pg, 0) ?frag = Inr (pg', x') \<and>
             page_annots pg' = page_annots ?pg"
    by blast
  from inst a
  have e: "\<exists>r. resolveFootnoteLinkSpec (lib_decode ?lib) (lib_encode ?lib) ''notes/page.html'' {} =
             Inr r"
    by blast
  from a b c r d e show ?thesis unfolding Let_def by simp
qed

text \<open>An \<open>href\<close> that starts with a space and then \<open>/\<close> starts with neither \<open>#\<close>, a
  scheme nor \<open>/\<close>, and gets an external link.\<close>

theorem href_with_leading_space_gets_external_link:
  "\<not> startsWith '' /x'' ''#'' \<and> \<not> hasScheme '' /x'' \<and> \<not> startsWith '' /x'' ''/'' \<and>
   resolveFootnoteLinkSpec Some Some '' /x'' {} = Inr (Some (ExternalLink ''/x''))"
  by code_simp


end
